theory Spec2Isabelle
  imports Main
begin

section \<open>The runner package: sequential tasks under a deadline and an interrupt\<close>

text \<open>
  The source is \<^verbatim>\<open>chapter7/patterns/runner/runner.go\<close>. A \<^verbatim>\<open>Runner\<close> holds a list of
  tasks; \<^verbatim>\<open>Start\<close> subscribes to the operating system's interrupt, runs the tasks on a
  second goroutine and waits for either that goroutine's result or the deadline.

  The program is concurrent, so it is embedded as a state machine. A configuration holds
  the \<^verbatim>\<open>Runner\<close> struct, the one piece of state of package \<^verbatim>\<open>os/signal\<close> that matters
  (whether \<^verbatim>\<open>r.interrupt\<close> is registered), a program counter for the goroutine that called
  \<^verbatim>\<open>Start\<close>, a program counter for the goroutine that \<^verbatim>\<open>Start\<close> spawns, and the list of
  observable actions performed so far. A schedule is a list of events; each event lets one
  goroutine or the environment take one atomic step, and an event that is not enabled
  leaves the configuration as it is. A statement about every schedule is a statement about
  every interleaving of the two goroutines with the signals and the timer.

  What is taken from Go and its library rather than from the source file: a channel of
  capacity \<open>n\<close> buffers up to \<open>n\<close> values; a send on a channel without buffer completes
  only together with a receive; package \<^verbatim>\<open>os/signal\<close> relays a signal to a registered
  channel with a send that does not block, and to no channel after \<^verbatim>\<open>signal.Stop\<close>;
  \<^verbatim>\<open>time.After\<close> sends once on a channel of capacity 1; a \<^verbatim>\<open>select\<close> takes any one of the
  cases that can proceed.

  A task is opaque. It returns or it does not: a task that runs for long, or never returns,
  is a schedule that gives the worker no further step after the task was called. A task
  that panics, or that calls methods of the runner it runs under, is not modelled; neither
  is a second call of \<^verbatim>\<open>Start\<close> on the same runner.
\<close>

subsection \<open>Errors, signals, channels\<close>

text \<open>\<^verbatim>\<open>ErrTimeout\<close> and \<^verbatim>\<open>ErrInterrupt\<close>; a Go \<^verbatim>\<open>error\<close> is \<open>error option\<close>, \<open>None\<close> for nil.\<close>

datatype error = ErrTimeout | ErrInterrupt

text \<open>The only signal the runner asks for is \<^verbatim>\<open>os.Interrupt\<close>.\<close>

datatype signal = Interrupt

text \<open>
  A channel is its capacity and the values buffered in it, oldest first. A send that must
  not block (what the runtime does when it relays a signal or fires a timer) drops the
  value when the buffer is full; a receive that must not block (a \<^verbatim>\<open>select\<close> with a
  \<^verbatim>\<open>default\<close> case) yields nothing when the buffer is empty.
\<close>

record 'a chan =
  cap :: nat
  buf :: "'a list"

definition make_chan :: "nat \<Rightarrow> 'a chan" where
  "make_chan n = \<lparr>cap = n, buf = []\<rparr>"

definition try_send :: "'a \<Rightarrow> 'a chan \<Rightarrow> 'a chan" where
  "try_send v c = (if length (buf c) < cap c then c\<lparr>buf := buf c @ [v]\<rparr> else c)"

definition try_recv :: "'a chan \<Rightarrow> ('a \<times> 'a chan) option" where
  "try_recv c = (case buf c of [] \<Rightarrow> None | v # vs \<Rightarrow> Some (v, c\<lparr>buf := vs\<rparr>))"

text \<open>
  \<^verbatim>\<open>time.After(d)\<close> starts a one-shot timer of the runtime and returns the channel, of
  capacity 1, on which the timer sends once when it fires. The model keeps the timer with
  its channel. Real time is not modelled: when the timer fires is an event of the schedule.
\<close>

record timer =
  duration :: nat
  armed :: bool
  ch :: "unit chan"

definition After :: "nat \<Rightarrow> timer" where
  "After d = \<lparr>duration = d, armed = True, ch = make_chan 1\<rparr>"

definition fire :: "timer \<Rightarrow> timer" where
  "fire t = (if armed t then t\<lparr>armed := False, ch := try_send () (ch t)\<rparr> else t)"

subsection \<open>The Runner struct, New and Add\<close>

text \<open>
  The struct of the source, field by field. A task is a \<^verbatim>\<open>func(int)\<close> whose body the
  runner never inspects, so tasks are values of an arbitrary type \<open>'t\<close> and calling one is
  an observable action. The \<^verbatim>\<open>complete\<close> channel has no buffer: a send on it is a
  rendezvous, which the machine below represents by the worker waiting in its send.
\<close>

record 't Runner =
  interrupt :: "signal chan"
  complete :: "error option chan"
  timeout :: timer
  tasks :: "'t list"

definition New :: "nat \<Rightarrow> 't Runner" where
  "New d = \<lparr>interrupt = make_chan 1, complete = make_chan 0, timeout = After d, tasks = []\<rparr>"

definition Add :: "'t list \<Rightarrow> 't Runner \<Rightarrow> 't Runner" where
  "Add ts r = r\<lparr>tasks := tasks r @ ts\<rparr>"

subsection \<open>Configurations\<close>

text \<open>
  Where the goroutine that called \<^verbatim>\<open>Start\<close> stands: before \<^verbatim>\<open>signal.Notify\<close>, before the
  \<^verbatim>\<open>go\<close> statement, at the \<^verbatim>\<open>select\<close>, or returned with an error value.
\<close>

datatype main_pc = AtNotify | AtGo | AtSelect | Returned "error option"

text \<open>
  Where the spawned goroutine stands. \<open>Loop i rest\<close> is the head of the \<^verbatim>\<open>range\<close> loop of
  \<^verbatim>\<open>run\<close> with \<open>i\<close> the next index and \<open>rest\<close> the elements of the slice not yet visited
  (\<^verbatim>\<open>range\<close> evaluates \<^verbatim>\<open>r.tasks\<close> once). \<open>Recvd\<close> is inside \<^verbatim>\<open>gotInterrupt\<close>, after the
  receive from \<^verbatim>\<open>r.interrupt\<close> and before \<^verbatim>\<open>signal.Stop\<close>. \<open>Call i t rest\<close> is about to call
  \<^verbatim>\<open>task(id)\<close>, \<open>Running i rest\<close> is inside that call. \<open>Send e\<close> waits in
  \<^verbatim>\<open>r.complete <- e\<close>, and \<open>Done\<close> is the goroutine ended.
\<close>

datatype 't worker_pc =
    NotSpawned
  | Spawned
  | Loop nat "'t list"
  | Recvd
  | Call nat 't "'t list"
  | Running nat "'t list"
  | Send "error option"
  | Done

text \<open>
  The observable actions: a check of the interrupt channel with its outcome, the call of
  \<^verbatim>\<open>signal.Stop\<close>, and the call of a task with its argument.
\<close>

datatype 't obs = Check bool | Unsubscribe | Invoke 't int

record 't cfg =
  runner :: "'t Runner"
  handlers :: bool
  main :: main_pc
  worker :: "'t worker_pc"
  trace :: "'t obs list"

subsection \<open>The environment: signals and the timer\<close>

text \<open>
  Package \<^verbatim>\<open>os/signal\<close> relays an interrupt to every registered channel with a send that
  does not block; a channel that is not registered gets nothing.
\<close>

definition signal_Notify :: "'t cfg \<Rightarrow> 't cfg" where
  "signal_Notify c = c\<lparr>handlers := True\<rparr>"

definition signal_Stop :: "'t cfg \<Rightarrow> 't cfg" where
  "signal_Stop c = c\<lparr>handlers := False, trace := trace c @ [Unsubscribe]\<rparr>"

definition relay :: "'t Runner \<Rightarrow> 't Runner" where
  "relay r = r\<lparr>interrupt := try_send Interrupt (interrupt r)\<rparr>"

definition os_interrupt :: "'t cfg \<Rightarrow> 't cfg" where
  "os_interrupt c = (if handlers c then c\<lparr>runner := relay (runner c)\<rparr> else c)"

definition timer_fires :: "'t cfg \<Rightarrow> 't cfg" where
  "timer_fires c = c\<lparr>runner := (runner c)\<lparr>timeout := fire (timeout (runner c))\<rparr>\<rparr>"

subsection \<open>gotInterrupt and run: the steps of the worker\<close>

text \<open>
  The \<^verbatim>\<open>select\<close> of \<^verbatim>\<open>gotInterrupt\<close>: receive from \<^verbatim>\<open>r.interrupt\<close> if a signal is buffered,
  else take the \<^verbatim>\<open>default\<close> case. The result says which case was taken.
\<close>

definition gotInterrupt_select :: "'t cfg \<Rightarrow> bool \<times> 't cfg" where
  "gotInterrupt_select c =
     (case try_recv (interrupt (runner c)) of
        Some (s, q) \<Rightarrow>
          (True, c\<lparr>runner := (runner c)\<lparr>interrupt := q\<rparr>, trace := trace c @ [Check True]\<rparr>)
      | None \<Rightarrow> (False, c\<lparr>trace := trace c @ [Check False]\<rparr>))"

text \<open>
  One step of the goroutine \<^verbatim>\<open>go func() { r.complete <- r.run() }()\<close>. In the order of the
  cases: it enters \<^verbatim>\<open>run\<close> and evaluates the range expression; at the loop head it leaves
  the loop when no element is left (\<^verbatim>\<open>return nil\<close>) and else calls \<^verbatim>\<open>gotInterrupt\<close>; after a
  receive it calls \<^verbatim>\<open>signal.Stop\<close>, and \<^verbatim>\<open>run\<close> returns \<^verbatim>\<open>ErrInterrupt\<close>; it calls the task
  with its index; the task returns; a goroutine waiting in its send, or ended, does
  nothing by itself.
\<close>

definition run_step :: "'t cfg \<Rightarrow> 't cfg" where
  "run_step c =
     (case worker c of
        NotSpawned \<Rightarrow> c
      | Spawned \<Rightarrow> c\<lparr>worker := Loop 0 (tasks (runner c))\<rparr>
      | Loop i [] \<Rightarrow> c\<lparr>worker := Send None\<rparr>
      | Loop i (t # rest) \<Rightarrow>
          (let (got, c') = gotInterrupt_select c
           in if got then c'\<lparr>worker := Recvd\<rparr> else c'\<lparr>worker := Call i t rest\<rparr>)
      | Recvd \<Rightarrow> (signal_Stop c)\<lparr>worker := Send (Some ErrInterrupt)\<rparr>
      | Call i t rest \<Rightarrow> c\<lparr>worker := Running i rest, trace := trace c @ [Invoke t (int i)]\<rparr>
      | Running i rest \<Rightarrow> c\<lparr>worker := Loop (Suc i) rest\<rparr>
      | Send e \<Rightarrow> c
      | Done \<Rightarrow> c)"

text \<open>
  \<^verbatim>\<open>gotInterrupt\<close> and \<^verbatim>\<open>run\<close> as the source writes them, for a worker that nothing
  interleaves with: \<^verbatim>\<open>gotInterrupt\<close> is the \<^verbatim>\<open>select\<close> followed, in the receiving case, by
  \<^verbatim>\<open>signal.Stop\<close>; \<^verbatim>\<open>run\<close> goes through the tasks from index 0, returns \<^verbatim>\<open>ErrInterrupt\<close>
  when \<^verbatim>\<open>gotInterrupt\<close> says so, calls the task with its index otherwise, and returns nil
  after the last. The steps of \<open>run_step\<close> are these functions cut into atomic pieces
  (lemma \<open>run_steps\<close> below).
\<close>

definition gotInterrupt :: "'t cfg \<Rightarrow> bool \<times> 't cfg" where
  "gotInterrupt c =
     (let (got, c') = gotInterrupt_select c
      in if got then (True, signal_Stop c') else (False, c'))"

fun run_from :: "nat \<Rightarrow> 't list \<Rightarrow> 't cfg \<Rightarrow> error option \<times> 't cfg" where
  "run_from i [] c = (None, c)"
| "run_from i (t # rest) c =
     (let (got, c') = gotInterrupt c
      in if got then (Some ErrInterrupt, c')
         else run_from (Suc i) rest (c'\<lparr>trace := trace c' @ [Invoke t (int i)]\<rparr>))"

definition run :: "'t cfg \<Rightarrow> error option \<times> 't cfg" where
  "run c = run_from 0 (tasks (runner c)) c"

subsection \<open>Start: the steps of the calling goroutine\<close>

text \<open>
  \<^verbatim>\<open>Start\<close> calls \<^verbatim>\<open>signal.Notify\<close>, spawns the worker, and then selects. The case
  \<^verbatim>\<open>err := <-r.complete\<close> can proceed when the worker waits in its send; it returns what
  the worker sent, and the worker ends.
\<close>

definition Start_step :: "'t cfg \<Rightarrow> 't cfg" where
  "Start_step c =
     (case main c of
        AtNotify \<Rightarrow> (signal_Notify c)\<lparr>main := AtGo\<rparr>
      | AtGo \<Rightarrow> c\<lparr>main := AtSelect, worker := Spawned\<rparr>
      | AtSelect \<Rightarrow>
          (case worker c of
             Send e \<Rightarrow> c\<lparr>main := Returned e, worker := Done\<rparr>
           | _ \<Rightarrow> c)
      | Returned e \<Rightarrow> c)"

text \<open>
  The case \<^verbatim>\<open><-r.timeout\<close> of the \<^verbatim>\<open>select\<close> can proceed when the timer has sent; it
  returns \<^verbatim>\<open>ErrTimeout\<close> and does nothing else.
\<close>

definition Start_timeout :: "'t cfg \<Rightarrow> 't cfg" where
  "Start_timeout c =
     (case main c of
        AtSelect \<Rightarrow>
          (case try_recv (ch (timeout (runner c))) of
             Some (u, q) \<Rightarrow>
               c\<lparr>runner := (runner c)\<lparr>timeout := (timeout (runner c))\<lparr>ch := q\<rparr>\<rparr>,
                 main := Returned (Some ErrTimeout)\<rparr>
           | None \<Rightarrow> c)
      | _ \<Rightarrow> c)"

subsection \<open>Schedules\<close>

text \<open>
  An event of a schedule: the operating system raises an interrupt, the timer fires, the
  caller takes its next step (at the \<^verbatim>\<open>select\<close>: the completion case), the caller takes
  the timeout case of the \<^verbatim>\<open>select\<close>, the worker takes its next step. When both cases of
  the \<^verbatim>\<open>select\<close> can proceed Go chooses one at random; here the schedule chooses.
\<close>

datatype event = OsInterrupt | TimerFires | Caller | CallerTimeout | Worker

fun step :: "event \<Rightarrow> 't cfg \<Rightarrow> 't cfg" where
  "step OsInterrupt c = os_interrupt c"
| "step TimerFires c = timer_fires c"
| "step Caller c = Start_step c"
| "step CallerTimeout c = Start_timeout c"
| "step Worker c = run_step c"

primrec exec :: "event list \<Rightarrow> 't cfg \<Rightarrow> 't cfg" where
  "exec [] c = c"
| "exec (e # es) c = exec es (step e c)"

text \<open>
  The configuration in which \<^verbatim>\<open>r.Start()\<close> has just been called, and the configuration
  that a schedule leads to from there. \<^verbatim>\<open>Start\<close> has returned \<open>e\<close> in a configuration
  whose \<open>main\<close> is \<open>Returned e\<close>.
\<close>

definition Start_call :: "'t Runner \<Rightarrow> 't cfg" where
  "Start_call r = \<lparr>runner = r, handlers = False, main = AtNotify, worker = NotSpawned, trace = []\<rparr>"

definition Start :: "event list \<Rightarrow> 't Runner \<Rightarrow> 't cfg" where
  "Start es r = exec es (Start_call r)"

text \<open>The calls of tasks in a trace, in order: the task and the argument it was given.\<close>

fun invocations :: "'t obs list \<Rightarrow> ('t \<times> int) list" where
  "invocations [] = []"
| "invocations (Invoke t i # tr) = (t, i) # invocations tr"
| "invocations (Check b # tr) = invocations tr"
| "invocations (Unsubscribe # tr) = invocations tr"

text \<open>The registered tasks paired with their indices: what a full run is to call.\<close>

definition indexed :: "'t list \<Rightarrow> ('t \<times> int) list" where
  "indexed ts = zip ts (map int [0..<length ts])"

subsection \<open>Predicates on configurations\<close>

text \<open>
  What the trace is after the loop has gone through the tasks \<open>ts\<close>, the first of them
  with index \<open>i\<close>, without observing a signal: a check that finds nothing, then the call.
\<close>

fun visits :: "nat \<Rightarrow> 't list \<Rightarrow> 't obs list" where
  "visits i [] = []"
| "visits i (t # ts) = Check False # Invoke t (int i) # visits (Suc i) ts"

text \<open>
  How the two program counters go together: the worker exists from the \<^verbatim>\<open>go\<close> statement
  on, and it has ended exactly when \<^verbatim>\<open>Start\<close> has returned what the worker sent.
\<close>

definition control :: "'t cfg \<Rightarrow> bool" where
  "control c =
     (case main c of
        AtNotify \<Rightarrow> worker c = NotSpawned
      | AtGo \<Rightarrow> worker c = NotSpawned \<and> handlers c
      | AtSelect \<Rightarrow> worker c \<noteq> NotSpawned \<and> worker c \<noteq> Done
      | Returned e \<Rightarrow>
          if e = Some ErrTimeout then worker c \<noteq> NotSpawned \<and> worker c \<noteq> Done
          else worker c = Done)"

text \<open>A trace that ends with a check that observed a signal, before some task \<open>i\<close>.\<close>

definition stopped_at :: "'t list \<Rightarrow> 't obs list \<Rightarrow> bool" where
  "stopped_at ts tr = (\<exists>i<length ts. tr = visits 0 (take i ts) @ [Check True])"

text \<open>
  What the trace and the subscription are, for each place the worker can stand at, when
  the registered tasks are \<open>ts\<close>.
\<close>

definition shape :: "'t list \<Rightarrow> 't cfg \<Rightarrow> bool" where
  "shape ts c =
     (case worker c of
        NotSpawned \<Rightarrow> trace c = []
      | Spawned \<Rightarrow> trace c = [] \<and> handlers c
      | Loop i rest \<Rightarrow>
          i \<le> length ts \<and> rest = drop i ts \<and> trace c = visits 0 (take i ts) \<and> handlers c
      | Recvd \<Rightarrow> stopped_at ts (trace c) \<and> handlers c
      | Call i t rest \<Rightarrow>
          i < length ts \<and> t = ts ! i \<and> rest = drop (Suc i) ts
          \<and> trace c = visits 0 (take i ts) @ [Check False] \<and> handlers c
      | Running i rest \<Rightarrow>
          i < length ts \<and> rest = drop (Suc i) ts
          \<and> trace c = visits 0 (take (Suc i) ts) \<and> handlers c
      | Send e \<Rightarrow>
          (case e of
             None \<Rightarrow> trace c = visits 0 ts \<and> handlers c
           | Some x \<Rightarrow>
               x = ErrInterrupt \<and> \<not> handlers c
               \<and> (\<exists>tr. trace c = tr @ [Unsubscribe] \<and> stopped_at ts tr))
      | Done \<Rightarrow>
          (case main c of
             Returned None \<Rightarrow> trace c = visits 0 ts \<and> handlers c
           | Returned (Some x) \<Rightarrow>
               x = ErrInterrupt \<and> \<not> handlers c
               \<and> (\<exists>tr. trace c = tr @ [Unsubscribe] \<and> stopped_at ts tr)
           | _ \<Rightarrow> False))"

definition coherent :: "'t list \<Rightarrow> 't cfg \<Rightarrow> bool" where
  "coherent ts c \<longleftrightarrow> tasks (runner c) = ts \<and> control c \<and> shape ts c"

text \<open>The deadline has not fired and \<^verbatim>\<open>Start\<close> has not returned \<^verbatim>\<open>ErrTimeout\<close>.\<close>

definition no_timeout :: "'t cfg \<Rightarrow> bool" where
  "no_timeout c \<longleftrightarrow> buf (ch (timeout (runner c))) = [] \<and> main c \<noteq> Returned (Some ErrTimeout)"

text \<open>No signal is buffered and none has been observed.\<close>

definition no_signal :: "'t cfg \<Rightarrow> bool" where
  "no_signal c \<longleftrightarrow> buf (interrupt (runner c)) = [] \<and> Check True \<notin> set (trace c)"

text \<open>A bound on the steps the worker still takes before it waits in its send.\<close>

definition fuel :: "'t cfg \<Rightarrow> nat" where
  "fuel c =
     (case worker c of
        Spawned \<Rightarrow> 3 * length (tasks (runner c)) + 2
      | Loop i rest \<Rightarrow> 3 * length rest + 1
      | Call i t rest \<Rightarrow> 3 * length rest + 3
      | Running i rest \<Rightarrow> 3 * length rest + 2
      | Recvd \<Rightarrow> 1
      | _ \<Rightarrow> 0)"

text \<open>
  A schedule that lets \<^verbatim>\<open>Start\<close> reach its \<^verbatim>\<open>select\<close>, lets the worker run until it waits
  in its send, and then lets \<^verbatim>\<open>Start\<close> receive: enough for a runner of \<open>n\<close> tasks.
\<close>

definition finish :: "nat \<Rightarrow> event list" where
  "finish n = Caller # Caller # replicate (3 * n + 2) Worker @ [Caller]"

text \<open>
  A signal is buffered, or has been received, before the next task is called: the worker
  is on its way to \<^verbatim>\<open>return ErrInterrupt\<close> and calls no further task.
\<close>

definition doomed :: "'t cfg \<Rightarrow> bool" where
  "doomed c =
     (case worker c of
        NotSpawned \<Rightarrow> buf (interrupt (runner c)) \<noteq> [] \<and> tasks (runner c) \<noteq> []
      | Spawned \<Rightarrow> buf (interrupt (runner c)) \<noteq> [] \<and> tasks (runner c) \<noteq> []
      | Loop i rest \<Rightarrow> buf (interrupt (runner c)) \<noteq> [] \<and> rest \<noteq> []
      | Recvd \<Rightarrow> True
      | Call i t rest \<Rightarrow> False
      | Running i rest \<Rightarrow> buf (interrupt (runner c)) \<noteq> [] \<and> rest \<noteq> []
      | Send e \<Rightarrow> e = Some ErrInterrupt
      | Done \<Rightarrow> main c = Returned (Some ErrInterrupt))"

text \<open>
  Two configurations agree on everything a step of the worker or a relayed signal reads
  and writes.
\<close>

definition same_worker :: "'t cfg \<Rightarrow> 't cfg \<Rightarrow> bool" where
  "same_worker c c' \<longleftrightarrow>
     worker c = worker c' \<and> trace c = trace c' \<and> handlers c = handlers c'
     \<and> interrupt (runner c) = interrupt (runner c') \<and> tasks (runner c) = tasks (runner c')"

text \<open>
  The worker waits in its send on \<^verbatim>\<open>complete\<close>: the completion case of the \<^verbatim>\<open>select\<close> can
  proceed. And: along a schedule from a configuration, the worker never does.
\<close>

definition offering :: "'t cfg \<Rightarrow> bool" where
  "offering c = (case worker c of Send e \<Rightarrow> True | _ \<Rightarrow> False)"

fun not_offered :: "'t cfg \<Rightarrow> event list \<Rightarrow> bool" where
  "not_offered c [] = (\<not> offering c)"
| "not_offered c (e # es) = (\<not> offering c \<and> not_offered (step e c) es)"

section \<open>Invariants of every schedule\<close>

lemma exec_append: "exec (es @ fs) c = exec fs (exec es c)"
  by (induction es arbitrary: c) simp_all

lemma visits_snoc:
  "visits i (xs @ [t]) = visits i xs @ [Check False, Invoke t (int (i + length xs))]"
  by (induction xs arbitrary: i) simp_all

lemma Unsubscribe_visits: "Unsubscribe \<notin> set (visits i ts)"
  by (induction ts arbitrary: i) simp_all

lemma Check_True_visits: "Check True \<notin> set (visits i ts)"
  by (induction ts arbitrary: i) simp_all

lemma drop_ConsD:
  assumes "drop i ts = t # rest"
  shows "i < length ts \<and> ts ! i = t \<and> drop (Suc i) ts = rest"
proof -
  have i: "i < length ts" using assms by (cases "i < length ts") simp_all
  from Cons_nth_drop_Suc [OF i] assms show ?thesis using i by simp
qed

lemma visits_take_Suc:
  "i < length ts \<Longrightarrow>
     visits 0 (take (Suc i) ts) = visits 0 (take i ts) @ [Check False, Invoke (ts ! i) (int i)]"
  by (simp add: take_Suc_conv_app_nth visits_snoc)

lemma coherent_Start_call: "coherent (tasks r) (Start_call r)"
  by (simp add: coherent_def control_def shape_def Start_call_def)

lemma coherent_os: "coherent ts c \<Longrightarrow> coherent ts (os_interrupt c)"
  by (auto simp: coherent_def control_def shape_def os_interrupt_def relay_def
      split: main_pc.splits worker_pc.splits option.splits)

lemma coherent_timer: "coherent ts c \<Longrightarrow> coherent ts (timer_fires c)"
  by (auto simp: coherent_def control_def shape_def timer_fires_def
      split: main_pc.splits worker_pc.splits option.splits)

lemma coherent_Start_step: "coherent ts c \<Longrightarrow> coherent ts (Start_step c)"
  by (auto simp: coherent_def control_def shape_def Start_step_def signal_Notify_def
      split: main_pc.splits worker_pc.splits option.splits if_splits)

lemma coherent_Start_timeout: "coherent ts c \<Longrightarrow> coherent ts (Start_timeout c)"
  by (auto simp: coherent_def control_def shape_def Start_timeout_def
      split: main_pc.splits worker_pc.splits option.splits if_splits)

lemma coherent_run_step: "coherent ts c \<Longrightarrow> coherent ts (run_step c)"
  by (auto simp: coherent_def control_def shape_def run_step_def gotInterrupt_select_def
      signal_Stop_def try_recv_def stopped_at_def visits_take_Suc
      split: main_pc.splits worker_pc.splits option.splits if_splits list.splits
      dest!: drop_ConsD sym [of "_ # _" "drop _ _"])

lemma coherent_step: "coherent ts c \<Longrightarrow> coherent ts (step e c)"
  by (cases e)
    (simp_all add: coherent_os coherent_timer coherent_Start_step coherent_Start_timeout
      coherent_run_step)

lemma coherent_exec: "coherent ts c \<Longrightarrow> coherent ts (exec es c)"
  by (induction es arbitrary: c) (simp_all add: coherent_step)

lemma coherent_Start: "coherent (tasks r) (Start es r)"
  by (simp add: Start_def coherent_exec coherent_Start_call)

lemma tasks_Add_New: "tasks (Add ts (New d)) = ts"
  by (simp add: Add_def New_def)

lemma coherent_Start_New: "coherent ts (Start es (Add ts (New d)))"
  using coherent_Start [of "Add ts (New d)" es] by (simp add: tasks_Add_New)

lemma invocations_append: "invocations (xs @ ys) = invocations xs @ invocations ys"
  by (induction xs rule: invocations.induct) simp_all

lemma invocations_visits: "invocations (visits i ts) = zip ts (map int [i..<i + length ts])"
proof (induction ts arbitrary: i)
  case Nil
  show ?case by simp
next
  case (Cons t ts)
  have "i < i + length (t # ts)" by simp
  from upt_conv_Cons [OF this]
  have "[i..<i + length (t # ts)] = i # [Suc i..<Suc i + length ts]" by simp
  then show ?case using Cons.IH [of "Suc i"] by simp
qed

lemma invocations_visits_0: "invocations (visits 0 ts) = indexed ts"
  by (simp add: invocations_visits indexed_def)

subsection \<open>Without the timer, without signals\<close>

lemma no_timeout_step:
  "coherent ts c \<Longrightarrow> no_timeout c \<Longrightarrow> e \<noteq> TimerFires \<Longrightarrow> no_timeout (step e c)"
  by (cases e)
    (auto simp: no_timeout_def os_interrupt_def relay_def Start_step_def Start_timeout_def run_step_def
      gotInterrupt_select_def signal_Stop_def signal_Notify_def try_recv_def coherent_def
      shape_def
      split: main_pc.splits worker_pc.splits option.splits list.splits)

lemma no_timeout_exec:
  "coherent ts c \<Longrightarrow> no_timeout c \<Longrightarrow> TimerFires \<notin> set es \<Longrightarrow> no_timeout (exec es c)"
proof (induction es arbitrary: c)
  case Nil
  then show ?case by simp
next
  case (Cons e es)
  then show ?case using coherent_step [of ts c e] no_timeout_step [of ts c e] by auto
qed

lemma no_timeout_Start:
  assumes "buf (ch (timeout r)) = []" and "TimerFires \<notin> set es"
  shows "no_timeout (Start es r)"
proof -
  have "no_timeout (Start_call r)" using assms(1) by (simp add: no_timeout_def Start_call_def)
  with coherent_Start_call [of r] show ?thesis
    unfolding Start_def using assms(2) by (rule no_timeout_exec)
qed

lemma timeout_New: "buf (ch (timeout (Add ts (New d)))) = []"
  by (simp add: Add_def New_def After_def make_chan_def)

lemma no_signal_step: "no_signal c \<Longrightarrow> e \<noteq> OsInterrupt \<Longrightarrow> no_signal (step e c)"
  by (cases e)
    (auto simp: no_signal_def timer_fires_def Start_step_def Start_timeout_def run_step_def
      gotInterrupt_select_def signal_Stop_def signal_Notify_def try_recv_def
      split: main_pc.splits worker_pc.splits option.splits list.splits)

lemma no_signal_exec: "no_signal c \<Longrightarrow> OsInterrupt \<notin> set es \<Longrightarrow> no_signal (exec es c)"
proof (induction es arbitrary: c)
  case Nil
  then show ?case by simp
next
  case (Cons e es)
  then show ?case using no_signal_step [of c e] by auto
qed

lemma no_signal_Start:
  assumes "buf (interrupt r) = []" and "OsInterrupt \<notin> set es"
  shows "no_signal (Start es r)"
proof -
  have "no_signal (Start_call r)" using assms(1) by (simp add: no_signal_def Start_call_def)
  then show ?thesis unfolding Start_def using assms(2) by (rule no_signal_exec)
qed

lemma interrupt_New: "buf (interrupt (Add ts (New d))) = []"
  by (simp add: Add_def New_def make_chan_def)

subsection \<open>A return is final, and the loop ends\<close>

lemma Returned_step: "main c = Returned e \<Longrightarrow> main (step ev c) = Returned e"
  by (cases ev)
    (auto simp: os_interrupt_def relay_def timer_fires_def Start_step_def Start_timeout_def run_step_def
      gotInterrupt_select_def signal_Stop_def try_recv_def
      split: worker_pc.splits option.splits list.splits)

lemma Returned_exec: "main c = Returned e \<Longrightarrow> main (exec es c) = Returned e"
  by (induction es arbitrary: c) (simp_all add: Returned_step)

lemma fuel_run_step:
  "worker c \<noteq> NotSpawned \<Longrightarrow> worker c \<noteq> Done \<Longrightarrow>
     worker (run_step c) \<noteq> NotSpawned \<and> worker (run_step c) \<noteq> Done
     \<and> fuel (run_step c) \<le> fuel c - 1 \<and> main (run_step c) = main c"
  by (auto simp: fuel_def run_step_def gotInterrupt_select_def signal_Stop_def try_recv_def
      split: worker_pc.splits option.splits list.splits)

lemma fuel_0: "worker c \<noteq> NotSpawned \<Longrightarrow> worker c \<noteq> Done \<Longrightarrow> fuel c = 0 \<Longrightarrow> \<exists>e. worker c = Send e"
  by (auto simp: fuel_def split: worker_pc.splits)

lemma run_ends:
  "worker c \<noteq> NotSpawned \<Longrightarrow> worker c \<noteq> Done \<Longrightarrow> fuel c \<le> n \<Longrightarrow>
     (\<exists>e. worker (exec (replicate n Worker) c) = Send e)
     \<and> main (exec (replicate n Worker) c) = main c"
proof (induction n arbitrary: c)
  case 0
  then show ?case using fuel_0 [of c] by simp
next
  case (Suc n)
  from fuel_run_step [OF Suc.prems(1,2)] Suc.prems(3)
  have "worker (run_step c) \<noteq> NotSpawned" and "worker (run_step c) \<noteq> Done"
    and "fuel (run_step c) \<le> n" and m: "main (run_step c) = main c"
    by auto
  from Suc.IH [OF this(1,2,3)] m show ?case by simp
qed

lemma coherent_fuel: "coherent ts c \<Longrightarrow> fuel c \<le> 3 * length ts + 2"
  by (auto simp: coherent_def shape_def fuel_def split: worker_pc.splits)

lemma at_select_returns:
  assumes "coherent ts c" and "main c = AtSelect"
  shows "\<exists>e. main (exec (replicate (3 * length ts + 2) Worker @ [Caller]) c) = Returned e"
proof -
  from assms have w: "worker c \<noteq> NotSpawned" "worker c \<noteq> Done"
    by (auto simp: coherent_def control_def)
  from run_ends [OF w coherent_fuel [OF assms(1)]] assms(2)
  show ?thesis by (auto simp: exec_append Start_step_def)
qed

lemma two_Caller_steps:
  "coherent ts c \<Longrightarrow> main (exec [Caller, Caller] c) = AtSelect \<or> (\<exists>e. main (exec [Caller, Caller] c) = Returned e)"
  by (cases "main c")
    (auto simp: Start_step_def signal_Notify_def coherent_def control_def
      split: worker_pc.splits)

text \<open>
  From every configuration a schedule can reach, the schedule \<open>finish\<close> makes \<^verbatim>\<open>Start\<close>
  return: nothing that happened before can keep \<^verbatim>\<open>Start\<close> from returning, as long as the
  tasks return.
\<close>

lemma finish_returns:
  assumes "coherent ts c"
  shows "\<exists>e. main (exec (finish (length ts)) c) = Returned e"
proof -
  let ?c2 = "exec [Caller, Caller] c"
  let ?w = "replicate (3 * length ts + 2) Worker @ [Caller]"
  have c2: "coherent ts ?c2" using assms by (rule coherent_exec)
  have "\<exists>e. main (exec ?w ?c2) = Returned e"
  proof (cases "main ?c2 = AtSelect")
    case True
    with c2 show ?thesis by (rule at_select_returns)
  next
    case False
    with two_Caller_steps [OF assms] obtain e where "main ?c2 = Returned e" by auto
    then have "main (exec ?w ?c2) = Returned e" by (rule Returned_exec)
    then show ?thesis by blast
  qed
  then show ?thesis by (simp add: finish_def)
qed

lemma finish_events: "set (finish n) \<subseteq> {Caller, Worker}"
  by (auto simp: finish_def)

section \<open>The steps of the worker compute run\<close>

lemma gotInterrupt_empty:
  "buf (interrupt (runner c)) = [] \<Longrightarrow>
     gotInterrupt c = (False, c\<lparr>trace := trace c @ [Check False]\<rparr>)"
  by (simp add: gotInterrupt_def gotInterrupt_select_def try_recv_def)

lemma gotInterrupt_pending:
  "buf (interrupt (runner c)) = s # ss \<Longrightarrow>
     gotInterrupt c =
       (True, c\<lparr>runner := (runner c)\<lparr>interrupt := (interrupt (runner c))\<lparr>buf := ss\<rparr>\<rparr>,
                 handlers := False, trace := trace c @ [Check True, Unsubscribe]\<rparr>)"
  by (simp add: gotInterrupt_def gotInterrupt_select_def try_recv_def signal_Stop_def)

lemma run_from_pc:
  "run_from i rest (c\<lparr>worker := w\<rparr>)
     = (fst (run_from i rest c), (snd (run_from i rest c))\<lparr>worker := w\<rparr>)"
proof (induction rest arbitrary: i c)
  case Nil
  show ?case by simp
next
  case (Cons t rest)
  show ?case
  proof (cases "buf (interrupt (runner c))")
    case Nil
    from Cons.IH [of "Suc i" "c\<lparr>trace := trace c @ [Check False, Invoke t (int i)]\<rparr>"]
    show ?thesis using Nil by (cases c) (simp add: gotInterrupt_empty)
  next
    case (Cons s ss)
    then show ?thesis by (simp add: gotInterrupt_pending)
  qed
qed

lemma send_stutter: "worker c = Send e \<Longrightarrow> exec (replicate n Worker) c = c"
  by (induction n) (simp_all add: run_step_def)

text \<open>
  From the loop head, with no other event in between, the worker's steps lead to the
  configuration that \<open>run_from\<close> computes, the worker waiting to send what \<open>run_from\<close>
  returns.
\<close>

lemma run_steps:
  "worker c = Loop i rest \<Longrightarrow>
     exec (replicate (3 * length rest + 1) Worker) c
       = (snd (run_from i rest c))\<lparr>worker := Send (fst (run_from i rest c))\<rparr>"
proof (induction rest arbitrary: i c)
  case Nil
  then show ?case by (simp add: run_step_def)
next
  case (Cons t rest)
  show ?case
  proof (cases "buf (interrupt (runner c))")
    case Nil
    let ?c1 = "c\<lparr>trace := trace c @ [Check False]\<rparr>"
    let ?c3 = "c\<lparr>worker := Loop (Suc i) rest, trace := trace c @ [Check False, Invoke t (int i)]\<rparr>"
    from Nil have g: "gotInterrupt c = (False, ?c1)" by (rule gotInterrupt_empty)
    from Nil Cons.prems have "exec [Worker, Worker, Worker] c = ?c3"
      by (simp add: run_step_def gotInterrupt_select_def try_recv_def)
    moreover have "3 * length (t # rest) + 1 = 3 + (3 * length rest + 1)" by simp
    ultimately have "exec (replicate (3 * length (t # rest) + 1) Worker) c
        = exec (replicate (3 * length rest + 1) Worker) ?c3"
      by (simp only: replicate_add exec_append) (simp add: numeral_3_eq_3)
    also have "\<dots> = (snd (run_from (Suc i) rest ?c3))\<lparr>worker := Send (fst (run_from (Suc i) rest ?c3))\<rparr>"
      by (rule Cons.IH) simp
    also have "\<dots> = (snd (run_from i (t # rest) c))\<lparr>worker := Send (fst (run_from i (t # rest) c))\<rparr>"
      using g run_from_pc [where i = "Suc i" and rest = rest and w = "Loop (Suc i) rest"
          and c = "c\<lparr>trace := trace c @ [Check False, Invoke t (int i)]\<rparr>"]
      by (cases c) simp
    finally show ?thesis .
  next
    case (Cons s ss)
    from Cons Cons.prems
    have "exec [Worker, Worker] c = (snd (gotInterrupt c))\<lparr>worker := Send (Some ErrInterrupt)\<rparr>"
      by (simp add: gotInterrupt_pending run_step_def gotInterrupt_select_def try_recv_def
          signal_Stop_def)
    moreover have "3 * length (t # rest) + 1 = 2 + (3 * length rest + 2)" by simp
    ultimately have "exec (replicate (3 * length (t # rest) + 1) Worker) c
        = exec (replicate (3 * length rest + 2) Worker)
            ((snd (gotInterrupt c))\<lparr>worker := Send (Some ErrInterrupt)\<rparr>)"
      by (simp only: replicate_add exec_append) (simp add: numeral_2_eq_2)
    also have "\<dots> = (snd (gotInterrupt c))\<lparr>worker := Send (Some ErrInterrupt)\<rparr>"
      by (rule send_stutter) simp
    finally show ?thesis using Cons by (simp add: gotInterrupt_pending)
  qed
qed

text \<open>The same from the start of the goroutine: it sends what \<open>run\<close> returns.\<close>

lemma run_goroutine:
  assumes "worker c = Spawned"
  shows "exec (replicate (3 * length (tasks (runner c)) + 2) Worker) c
           = (snd (run c))\<lparr>worker := Send (fst (run c))\<rparr>"
proof -
  let ?ts = "tasks (runner c)"
  let ?c1 = "c\<lparr>worker := Loop 0 ?ts\<rparr>"
  have "3 * length ?ts + 2 = 1 + (3 * length ?ts + 1)" by simp
  then have "exec (replicate (3 * length ?ts + 2) Worker) c
      = exec (replicate (3 * length ?ts + 1) Worker) (run_step c)"
    by (simp only: replicate_add exec_append) simp
  also have "run_step c = ?c1" using assms by (simp add: run_step_def)
  also have "exec (replicate (3 * length ?ts + 1) Worker) ?c1
      = (snd (run_from 0 ?ts ?c1))\<lparr>worker := Send (fst (run_from 0 ?ts ?c1))\<rparr>"
    by (rule run_steps) simp
  also have "\<dots> = (snd (run c))\<lparr>worker := Send (fst (run c))\<rparr>"
    using run_from_pc [where i = 0 and rest = ?ts and c = c and w = "Loop 0 ?ts"]
    by (simp add: run_def)
  finally show ?thesis .
qed

lemma run_from_quiet:
  "buf (interrupt (runner c)) = [] \<Longrightarrow>
     run_from i rest c = (None, c\<lparr>trace := trace c @ visits i rest\<rparr>)"
proof (induction rest arbitrary: i c)
  case Nil
  show ?case by simp
next
  case (Cons t rest)
  from Cons.IH [of "c\<lparr>trace := trace c @ [Check False, Invoke t (int i)]\<rparr>" "Suc i"] Cons.prems
  show ?case by (simp add: gotInterrupt_empty)
qed

lemma run_quiet:
  "buf (interrupt (runner c)) = [] \<Longrightarrow>
     fst (run c) = None
     \<and> invocations (trace (snd (run c))) = invocations (trace c) @ indexed (tasks (runner c))
     \<and> Check True \<notin> set (trace (snd (run c))) - set (trace c)"
  by (simp add: run_def run_from_quiet invocations_append invocations_visits_0 Check_True_visits)

lemma run_pending:
  "buf (interrupt (runner c)) \<noteq> [] \<Longrightarrow> tasks (runner c) \<noteq> [] \<Longrightarrow>
     fst (run c) = Some ErrInterrupt \<and> trace (snd (run c)) = trace c @ [Check True, Unsubscribe]"
  by (cases "buf (interrupt (runner c))"; cases "tasks (runner c)")
    (simp_all add: run_def gotInterrupt_pending)

lemma run_empty: "tasks (runner c) = [] \<Longrightarrow> run c = (None, c)"
  by (simp add: run_def)

section \<open>A run that nothing cuts short\<close>

lemma returned_without_signal:
  assumes "coherent ts c" and "main c = Returned e" and "e \<noteq> Some ErrTimeout"
    and "Check True \<notin> set (trace c)"
  shows "e = None \<and> trace c = visits 0 ts"
proof -
  from assms(1,2,3) have d: "worker c = Done" by (auto simp: coherent_def control_def)
  show ?thesis
  proof (cases e)
    case None
    with assms(1,2) d show ?thesis by (auto simp: coherent_def shape_def)
  next
    case (Some x)
    with assms(1,2) d have "Check True \<in> set (trace c)"
      by (auto simp: coherent_def shape_def stopped_at_def)
    with assms(4) show ?thesis by simp
  qed
qed

text \<open>
  C1. For every registered task sequence \<open>ts\<close>: if \<^verbatim>\<open>Start\<close> has returned, no check has
  observed a signal and the deadline has not fired, then \<^verbatim>\<open>Start\<close> returned nil and the
  calls of tasks are exactly the registered tasks, each once, each with its index, in the
  order of registration. And \<^verbatim>\<open>Start\<close> does return: after any schedule in which neither a
  signal is raised nor the timer fires, the schedule \<open>finish\<close> takes it to the return of nil.
\<close>

theorem Start_runs_all_tasks_in_order:
  "(main (Start es (Add ts (New d))) = Returned e
      \<and> Check True \<notin> set (trace (Start es (Add ts (New d))))
      \<and> TimerFires \<notin> set es
     \<longrightarrow> e = None \<and> invocations (trace (Start es (Add ts (New d)))) = indexed ts)
   \<and> (OsInterrupt \<notin> set es \<and> TimerFires \<notin> set es
     \<longrightarrow> main (Start (es @ finish (length ts)) (Add ts (New d))) = Returned None
        \<and> invocations (trace (Start (es @ finish (length ts)) (Add ts (New d)))) = indexed ts)"
proof (intro conjI impI)
  let ?r = "Add ts (New d) :: 'a Runner"
  {
    fix fs :: "event list" and x
    assume r: "main (Start fs ?r) = Returned x" and s: "Check True \<notin> set (trace (Start fs ?r))"
      and t: "TimerFires \<notin> set fs"
    have "no_timeout (Start fs ?r)" using timeout_New t by (rule no_timeout_Start)
    with r have "x \<noteq> Some ErrTimeout" by (auto simp: no_timeout_def)
    from returned_without_signal [OF coherent_Start_New r this s]
    have "x = None \<and> invocations (trace (Start fs ?r)) = indexed ts"
      by (simp add: invocations_visits_0)
  }
  note safe = this
  {
    assume "main (Start es ?r) = Returned e \<and> Check True \<notin> set (trace (Start es ?r))
      \<and> TimerFires \<notin> set es"
    then show "e = None" and "invocations (trace (Start es ?r)) = indexed ts"
      using safe [of es e] by simp_all
  }
  {
    assume a: "OsInterrupt \<notin> set es \<and> TimerFires \<notin> set es"
    let ?fs = "es @ finish (length ts)"
    from finish_returns [OF coherent_Start_New [of ts es d]]
    obtain x where x: "main (Start ?fs ?r) = Returned x"
      by (auto simp: Start_def exec_append)
    have ev: "OsInterrupt \<notin> set ?fs" "TimerFires \<notin> set ?fs"
      using a finish_events [of "length ts"] by auto
    have "no_signal (Start ?fs ?r)" using interrupt_New ev(1) by (rule no_signal_Start)
    then have "Check True \<notin> set (trace (Start ?fs ?r))" by (simp add: no_signal_def)
    from safe [OF x this ev(2)] x
    show "main (Start ?fs ?r) = Returned None"
      and "invocations (trace (Start ?fs ?r)) = indexed ts"
      by simp_all
  }
qed

theorem Start_runs_all_tasks_in_order_witness:
  "main (Start (finish 2) (Add [''a'', ''b''] (New 5))) = Returned None
   \<and> Check True \<notin> set (trace (Start (finish 2) (Add [''a'', ''b''] (New 5))))
   \<and> TimerFires \<notin> set (finish 2)
   \<and> invocations (trace (Start (finish 2) (Add [''a'', ''b''] (New 5)))) = [(''a'', 0), (''b'', 1)]
   \<and> main (Start ([] @ finish (length [''a'', ''b''])) (Add [''a'', ''b''] (New 5))) = Returned None"
proof -
  let ?r = "Add [''a'', ''b''] (New 5) :: string Runner"
  have m: "main (Start (finish 2) ?r) = Returned None" by code_simp
  have s: "Check True \<notin> set (trace (Start (finish 2) ?r))" by code_simp
  have t: "TimerFires \<notin> set (finish 2)" by code_simp
  have i: "indexed [''a'', ''b''] = [(''a'', 0), (''b'', 1)]" by code_simp
  have n: "OsInterrupt \<notin> set [] \<and> TimerFires \<notin> set []" by simp
  from Start_runs_all_tasks_in_order [of "finish 2" "[''a'', ''b'']" 5 None] m s t
  have "invocations (trace (Start (finish 2) ?r)) = indexed [''a'', ''b'']" by blast
  moreover from Start_runs_all_tasks_in_order [of "[]" "[''a'', ''b'']" 5] n
  have "main (Start ([] @ finish (length [''a'', ''b''])) ?r) = Returned None" by blast
  ultimately show ?thesis using m s t i by presburger
qed

section \<open>A signal cuts the run short\<close>

lemma doomed_step:
  "coherent ts c \<Longrightarrow> doomed c \<Longrightarrow>
     doomed (step e c) \<and> invocations (trace (step e c)) = invocations (trace c)"
  by (cases e)
    (auto simp: doomed_def coherent_def control_def os_interrupt_def relay_def try_send_def
      timer_fires_def Start_step_def Start_timeout_def run_step_def gotInterrupt_select_def
      signal_Stop_def signal_Notify_def try_recv_def invocations_append
      split: main_pc.splits worker_pc.splits option.splits list.splits if_splits)

lemma doomed_exec:
  "coherent ts c \<Longrightarrow> doomed c \<Longrightarrow>
     doomed (exec es c) \<and> invocations (trace (exec es c)) = invocations (trace c)"
proof (induction es arbitrary: c)
  case Nil
  then show ?case by simp
next
  case (Cons e es)
  from doomed_step [OF Cons.prems, of e] coherent_step [OF Cons.prems(1), of e]
  have "coherent ts (step e c)" and "doomed (step e c)"
    and i: "invocations (trace (step e c)) = invocations (trace c)"
    by simp_all
  from Cons.IH [OF this(1,2)] i show ?case by simp
qed

lemma doomed_result:
  "coherent ts c \<Longrightarrow> doomed c \<Longrightarrow> main c = Returned e \<Longrightarrow> e \<noteq> Some ErrTimeout \<Longrightarrow>
     e = Some ErrInterrupt"
  by (auto simp: coherent_def control_def doomed_def)

lemma doomed_returns:
  assumes "coherent ts c" and "doomed c" and "no_timeout c"
  shows "main (exec (finish (length ts)) c) = Returned (Some ErrInterrupt)"
proof -
  let ?c = "exec (finish (length ts)) c"
  from finish_returns [OF assms(1)] obtain x where x: "main ?c = Returned x" by blast
  have "TimerFires \<notin> set (finish (length ts))" using finish_events [of "length ts"] by auto
  with assms(1,3) have "no_timeout ?c" by (rule no_timeout_exec)
  with x have "x \<noteq> Some ErrTimeout" by (auto simp: no_timeout_def)
  from doomed_result [OF coherent_exec [OF assms(1)] _ x this] doomed_exec [OF assms(1,2)] x
  show ?thesis by simp
qed

lemma doomed_sends: "doomed c \<Longrightarrow> worker c = Send x \<Longrightarrow> x = Some ErrInterrupt"
  by (simp add: doomed_def)

lemma cap_step: "cap (interrupt (runner (step e c))) = cap (interrupt (runner c))"
  by (cases e)
    (auto simp: os_interrupt_def relay_def try_send_def timer_fires_def Start_step_def
      Start_timeout_def run_step_def gotInterrupt_select_def signal_Stop_def signal_Notify_def
      try_recv_def
      split: main_pc.splits worker_pc.splits option.splits list.splits)

lemma cap_exec: "cap (interrupt (runner (exec es c))) = cap (interrupt (runner c))"
  by (induction es arbitrary: c) (simp_all add: cap_step)

lemma cap_Start_New: "cap (interrupt (runner (Start es (Add ts (New d))))) = 1"
  by (simp add: Start_def cap_exec) (simp add: Start_call_def Add_def New_def make_chan_def)

lemma relayed_nonempty:
  "handlers c \<Longrightarrow> cap (interrupt (runner c)) = 1 \<Longrightarrow>
     buf (interrupt (runner (os_interrupt c))) \<noteq> []"
  by (auto simp: os_interrupt_def relay_def try_send_def)

lemma os_interrupt_same:
  "worker (os_interrupt c) = worker c \<and> trace (os_interrupt c) = trace c
   \<and> main (os_interrupt c) = main c \<and> tasks (runner (os_interrupt c)) = tasks (runner c)"
  by (simp add: os_interrupt_def relay_def)








lemma doomed_after_interrupt:
  assumes "coherent ts c" and "cap (interrupt (runner c)) = 1"
    and "worker c = Running k rest \<or> worker c = Loop (Suc k) rest" and "rest \<noteq> []"
  shows "doomed (os_interrupt c) \<and> invocations (trace (os_interrupt c)) = indexed (take (Suc k) ts)"
proof -
  from assms(1,3) have h: "handlers c" and t: "trace c = visits 0 (take (Suc k) ts)"
    by (auto simp: coherent_def shape_def)
  from relayed_nonempty [OF h assms(2)] assms(3,4) os_interrupt_same [of c]
  have "doomed (os_interrupt c)" by (auto simp: doomed_def)
  moreover have "invocations (trace (os_interrupt c)) = indexed (take (Suc k) ts)"
    using t os_interrupt_same [of c] by (simp add: invocations_visits_0)
  ultimately show ?thesis by simp
qed

text \<open>
  C3, as amended. Let task \<open>k\<close> have been called, with a task \<open>k + 1\<close> registered after
  it, and let a signal be raised while task \<open>k\<close> runs or after it has returned, before the
  check that precedes task \<open>k + 1\<close>. Then the calls made, whatever happens later, are
  those of tasks \<open>0\<close> to \<open>k\<close>, each with its index, what the loop sends on \<^verbatim>\<open>complete\<close>
  is \<^verbatim>\<open>ErrInterrupt\<close>, and \<^verbatim>\<open>Start\<close> returns \<^verbatim>\<open>ErrInterrupt\<close> unless it returns
  \<^verbatim>\<open>ErrTimeout\<close>; when the timer does not fire, \<^verbatim>\<open>Start\<close> does return \<^verbatim>\<open>ErrInterrupt\<close>.
\<close>

theorem interrupt_during_task_stops_before_next:
  assumes "worker (Start es1 (Add ts (New d))) = Running k rest
           \<or> worker (Start es1 (Add ts (New d))) = Loop (Suc k) rest"
    and "rest \<noteq> []"
  shows "invocations (trace (Start (es1 @ OsInterrupt # es2) (Add ts (New d))))
           = indexed (take (Suc k) ts)
    \<and> (worker (Start (es1 @ OsInterrupt # es2) (Add ts (New d))) = Send x
         \<longrightarrow> x = Some ErrInterrupt)
    \<and> (main (Start (es1 @ OsInterrupt # es2) (Add ts (New d))) = Returned e
         \<and> e \<noteq> Some ErrTimeout \<longrightarrow> e = Some ErrInterrupt)
    \<and> (TimerFires \<notin> set (es1 @ OsInterrupt # es2)
         \<longrightarrow> main (Start (es1 @ OsInterrupt # es2 @ finish (length ts)) (Add ts (New d)))
               = Returned (Some ErrInterrupt))"
proof -
  let ?r = "Add ts (New d) :: 'a Runner"
  let ?c = "Start es1 ?r"
  let ?c' = "Start (es1 @ OsInterrupt # es2) ?r"
  have c: "coherent ts ?c" by (rule coherent_Start_New)
  have c': "coherent ts ?c'" by (rule coherent_Start_New)
  from doomed_after_interrupt [OF c cap_Start_New assms]
  have d: "doomed (os_interrupt ?c)"
    and i: "invocations (trace (os_interrupt ?c)) = indexed (take (Suc k) ts)"
    by simp_all
  have co: "coherent ts (os_interrupt ?c)" using c by (rule coherent_os)
  have e: "?c' = exec es2 (os_interrupt ?c)" by (simp add: Start_def exec_append)
  from doomed_exec [OF co d, of es2] i e
  have d': "doomed ?c'" and "invocations (trace ?c') = indexed (take (Suc k) ts)"
    by simp_all
  moreover have "worker ?c' = Send x \<longrightarrow> x = Some ErrInterrupt"
    using doomed_sends [OF d'] by blast
  moreover have "main ?c' = Returned e \<and> e \<noteq> Some ErrTimeout \<longrightarrow> e = Some ErrInterrupt"
    using doomed_result [OF c' d'] by blast
  moreover have "TimerFires \<notin> set (es1 @ OsInterrupt # es2)
         \<longrightarrow> main (Start (es1 @ OsInterrupt # es2 @ finish (length ts)) ?r)
               = Returned (Some ErrInterrupt)"
  proof
    assume "TimerFires \<notin> set (es1 @ OsInterrupt # es2)"
    with timeout_New have "no_timeout ?c'" by (rule no_timeout_Start)
    from doomed_returns [OF c' d' this]
    show "main (Start (es1 @ OsInterrupt # es2 @ finish (length ts)) ?r)
            = Returned (Some ErrInterrupt)"
      by (simp add: Start_def exec_append)
  qed
  ultimately show ?thesis by blast
qed

theorem interrupt_during_task_stops_before_next_witness:
  "worker (Start [Caller, Caller, Worker, Worker, Worker] (Add [''a'', ''b'', ''c''] (New 5)))
     = Running 0 [''b'', ''c'']
   \<and> [''b'', ''c''] \<noteq> []
   \<and> TimerFires \<notin> set ([Caller, Caller, Worker, Worker, Worker] @ OsInterrupt # [Worker])
   \<and> invocations (trace (Start ([Caller, Caller, Worker, Worker, Worker] @ OsInterrupt # [Worker])
        (Add [''a'', ''b'', ''c''] (New 5)))) = [(''a'', 0)]
   \<and> main (Start ([Caller, Caller, Worker, Worker, Worker] @ OsInterrupt # [Worker]
        @ finish (length [''a'', ''b'', ''c''])) (Add [''a'', ''b'', ''c''] (New 5)))
       = Returned (Some ErrInterrupt)"
proof -
  let ?r = "Add [''a'', ''b'', ''c''] (New 5) :: string Runner"
  let ?es = "[Caller, Caller, Worker, Worker, Worker]"
  have w: "worker (Start ?es ?r) = Running 0 [''b'', ''c'']
           \<or> worker (Start ?es ?r) = Loop (Suc 0) [''b'', ''c'']"
    by code_simp
  have w1: "worker (Start ?es ?r) = Running 0 [''b'', ''c'']" by code_simp
  have n: "[''b'', ''c''] \<noteq> []" by simp
  have t: "TimerFires \<notin> set (?es @ OsInterrupt # [Worker])" by simp
  have i: "indexed (take (Suc 0) [''a'', ''b'', ''c'']) = [(''a'', 0)]" by code_simp
  from interrupt_during_task_stops_before_next [OF w n, of "[Worker]"] t i
  show ?thesis using w1 n by presburger
qed

text \<open>
  The claim as stated does not hold: the signal is raised while task \<open>0\<close> of two runs;
  then the timer fires and the \<^verbatim>\<open>select\<close> of \<^verbatim>\<open>Start\<close> takes the timeout case.
\<close>

theorem interrupt_during_task_counterexample:
  "worker (Start [Caller, Caller, Worker, Worker, Worker] (Add [''a'', ''b''] (New 5)))
     = Running 0 [''b'']
   \<and> buf (interrupt (runner (Start [Caller, Caller, Worker, Worker, Worker, OsInterrupt]
        (Add [''a'', ''b''] (New 5))))) = [Interrupt]
   \<and> main (Start [Caller, Caller, Worker, Worker, Worker, OsInterrupt, TimerFires, CallerTimeout]
        (Add [''a'', ''b''] (New 5))) = Returned (Some ErrTimeout)
   \<and> main (Start [Caller, Caller, Worker, Worker, Worker, OsInterrupt, TimerFires, CallerTimeout]
        (Add [''a'', ''b''] (New 5))) \<noteq> Returned (Some ErrInterrupt)"
  by code_simp

section \<open>No task registered\<close>

lemma coherent_Nil:
  "coherent [] c \<Longrightarrow>
     trace c = [] \<and> (\<forall>e. worker c = Send e \<longrightarrow> e = None)
     \<and> (\<forall>i rest. worker c = Loop i rest \<longrightarrow> rest = [])
     \<and> (\<forall>e. main c = Returned e \<longrightarrow> e = None \<or> e = Some ErrTimeout)"
  by (auto simp: coherent_def shape_def control_def stopped_at_def
      split: worker_pc.splits option.splits main_pc.splits if_splits)

lemma untouched_step:
  "coherent [] c \<Longrightarrow> n \<le> length (buf (interrupt (runner c))) \<Longrightarrow>
     n \<le> length (buf (interrupt (runner (step e c))))"
  by (cases e)
    (auto simp: coherent_def shape_def stopped_at_def os_interrupt_def relay_def try_send_def
      timer_fires_def Start_step_def Start_timeout_def run_step_def signal_Stop_def
      signal_Notify_def try_recv_def
      split: main_pc.splits worker_pc.splits option.splits list.splits)

lemma untouched_exec:
  "coherent [] c \<Longrightarrow> n \<le> length (buf (interrupt (runner c))) \<Longrightarrow>
     n \<le> length (buf (interrupt (runner (exec es c))))"
proof (induction es arbitrary: c)
  case Nil
  then show ?case by simp
next
  case (Cons e es)
  from Cons.IH [OF coherent_step [OF Cons.prems(1)] untouched_step [OF Cons.prems]]
  show ?case by simp
qed

text \<open>
  C4. With no task registered the loop of \<^verbatim>\<open>run\<close> has no iteration: in every configuration
  that a schedule leads to the trace is empty, so no check was made (and no signal was
  taken out of the interrupt channel, which holds at least what it held when \<^verbatim>\<open>Start\<close>
  was called); the worker's first step at the loop head takes it to the send of nil, nil
  is all it ever sends, and \<^verbatim>\<open>Start\<close> returns nil unless it returns \<^verbatim>\<open>ErrTimeout\<close>. After
  two steps of the caller and two of the worker, the worker offers nil. And \<open>run\<close>,
  called in any such configuration, returns nil and changes nothing.
\<close>

theorem empty_run_reports_success_without_check:
  assumes "tasks r = []"
  shows "trace (Start es r) = []
    \<and> length (buf (interrupt r)) \<le> length (buf (interrupt (runner (Start es r))))
    \<and> (worker (Start es r) = Loop i rest \<longrightarrow> worker (step Worker (Start es r)) = Send None)
    \<and> (worker (Start es r) = Send e \<longrightarrow> e = None)
    \<and> (main (Start es r) = Returned e \<longrightarrow> e = None \<or> e = Some ErrTimeout)
    \<and> worker (Start [Caller, Caller, Worker, Worker] r) = Send None
    \<and> (buf (ch (timeout r)) = [] \<and> TimerFires \<notin> set es
         \<longrightarrow> main (Start (es @ finish 0) r) = Returned None)
    \<and> run (Start es r) = (None, Start es r)"
proof -
  have c0: "coherent [] (Start_call r)" using coherent_Start_call [of r] assms by simp
  have c: "coherent [] (Start fs r)" for fs using coherent_Start [of r fs] assms by simp
  note n = coherent_Nil [OF c]
  have "length (buf (interrupt r)) \<le> length (buf (interrupt (runner (Start es r))))"
    unfolding Start_def using c0 by (rule untouched_exec) (simp add: Start_call_def)
  moreover have "worker (Start es r) = Loop i rest \<longrightarrow> worker (step Worker (Start es r)) = Send None"
    using n [of es] by (auto simp: run_step_def)
  moreover have "worker (Start [Caller, Caller, Worker, Worker] r) = Send None"
    using assms by (simp add: Start_def Start_call_def Start_step_def signal_Notify_def run_step_def)
  moreover have "buf (ch (timeout r)) = [] \<and> TimerFires \<notin> set es
         \<longrightarrow> main (Start (es @ finish 0) r) = Returned None"
  proof
    assume a: "buf (ch (timeout r)) = [] \<and> TimerFires \<notin> set es"
    from finish_returns [OF c [of es]] obtain x where x: "main (Start (es @ finish 0) r) = Returned x"
      by (auto simp: Start_def exec_append)
    have "TimerFires \<notin> set (es @ finish 0)" using a finish_events [of 0] by auto
    with a have "no_timeout (Start (es @ finish 0) r)" by (simp add: no_timeout_Start)
    with x n [of "es @ finish 0"] show "main (Start (es @ finish 0) r) = Returned None"
      by (auto simp: no_timeout_def)
  qed
  moreover have "run (Start es r) = (None, Start es r)"
    using c [of es] by (simp add: run_empty coherent_def)
  ultimately show ?thesis using n [of es] by blast
qed

theorem empty_run_reports_success_without_check_witness:
  "tasks (relay (New 5 :: string Runner)) = []
   \<and> buf (interrupt (relay (New 5 :: string Runner))) = [Interrupt]
   \<and> trace (Start [Caller, Caller, Worker, Worker] (relay (New 5 :: string Runner))) = []
   \<and> worker (Start [Caller, Caller, Worker] (relay (New 5 :: string Runner))) = Loop 0 []
   \<and> worker (step Worker (Start [Caller, Caller, Worker] (relay (New 5 :: string Runner)))) = Send None
   \<and> buf (ch (timeout (relay (New 5 :: string Runner)))) = []
   \<and> main (Start ([] @ finish 0) (relay (New 5 :: string Runner))) = Returned None"
proof -
  let ?r = "relay (New 5 :: string Runner)"
  have t: "tasks ?r = []" by code_simp
  have b: "buf (interrupt ?r) = [Interrupt]" by code_simp
  have w: "worker (Start [Caller, Caller, Worker] ?r) = Loop 0 []" by code_simp
  have u: "buf (ch (timeout ?r)) = [] \<and> TimerFires \<notin> set []" by code_simp
  from empty_run_reports_success_without_check [OF t, of "[Caller, Caller, Worker, Worker]"]
  have 1: "trace (Start [Caller, Caller, Worker, Worker] ?r) = []" by blast
  from empty_run_reports_success_without_check [OF t, of "[Caller, Caller, Worker]" 0 "[]"] w
  have 2: "worker (step Worker (Start [Caller, Caller, Worker] ?r)) = Send None" by blast
  from empty_run_reports_success_without_check [OF t, of "[]"] u
  have 3: "main (Start ([] @ finish 0) ?r) = Returned None" by blast
  from t b w u 1 2 3 show ?thesis by blast
qed

section \<open>The deadline\<close>

lemma Start_timeout_same: "same_worker (Start_timeout c) c"
  by (simp add: same_worker_def Start_timeout_def split: main_pc.splits option.splits)

lemma same_worker_run_step: "same_worker c c' \<Longrightarrow> same_worker (run_step c) (run_step c')"
  unfolding same_worker_def run_step_def gotInterrupt_select_def signal_Stop_def try_recv_def
  by (cases "worker c'") (auto split: list.splits)

lemma same_worker_os_interrupt:
  "same_worker c c' \<Longrightarrow> same_worker (os_interrupt c) (os_interrupt c')"
  by (simp add: same_worker_def os_interrupt_def relay_def)

lemma same_worker_exec:
  "set ws \<subseteq> {Worker, OsInterrupt} \<Longrightarrow> same_worker c c' \<Longrightarrow>
     same_worker (exec ws c) (exec ws c')"
proof (induction ws arbitrary: c c')
  case Nil
  then show ?case by simp
next
  case (Cons w ws)
  then have "w = Worker \<or> w = OsInterrupt" and ws: "set ws \<subseteq> {Worker, OsInterrupt}" by auto
  with Cons.prems(2) have "same_worker (step w c) (step w c')"
    by (auto simp: same_worker_run_step same_worker_os_interrupt)
  with Cons.IH [OF ws] show ?case by simp
qed

text \<open>
  When both cases of the \<^verbatim>\<open>select\<close> can proceed, the worker waiting in its send and the
  timer having fired, \<^verbatim>\<open>Start\<close> returns one or the other: which one is not determined.
\<close>

lemma select_both_ready:
  "main c = AtSelect \<Longrightarrow> worker c = Send e \<Longrightarrow> buf (ch (timeout (runner c))) \<noteq> [] \<Longrightarrow>
     main (step Caller c) = Returned e \<and> main (step CallerTimeout c) = Returned (Some ErrTimeout)"
  by (auto simp: Start_step_def Start_timeout_def try_recv_def split: list.splits)

lemma timer_stays_fired_step:
  assumes "\<not> offering c"
    and "main c = AtSelect \<and> buf (ch (timeout (runner c))) \<noteq> []
         \<or> main c = Returned (Some ErrTimeout)"
  shows "(main (step e c) = AtSelect \<and> buf (ch (timeout (runner (step e c)))) \<noteq> []
          \<or> main (step e c) = Returned (Some ErrTimeout))
    \<and> (e = CallerTimeout \<longrightarrow> main (step e c) = Returned (Some ErrTimeout))"
  using assms
  by (cases e)
    (auto simp: offering_def os_interrupt_def relay_def timer_fires_def fire_def try_send_def
      Start_step_def Start_timeout_def run_step_def gotInterrupt_select_def signal_Stop_def
      try_recv_def
      split: worker_pc.splits option.splits list.splits)

lemma only_timeout_before_offer:
  assumes "not_offered c es"
    and "main c = AtSelect \<and> buf (ch (timeout (runner c))) \<noteq> []
         \<or> main c = Returned (Some ErrTimeout)"
  shows "(main (exec es c) = AtSelect \<and> buf (ch (timeout (runner (exec es c)))) \<noteq> []
          \<or> main (exec es c) = Returned (Some ErrTimeout))
    \<and> (CallerTimeout \<in> set es \<longrightarrow> main (exec es c) = Returned (Some ErrTimeout))"
  using assms
proof (induction es arbitrary: c)
  case Nil
  then show ?case by simp
next
  case (Cons e es)
  from Cons.prems(1) have n: "\<not> offering c" and r: "not_offered (step e c) es" by simp_all
  note s = timer_stays_fired_step [OF n Cons.prems(2), of e]
  from s have j: "main (step e c) = AtSelect \<and> buf (ch (timeout (runner (step e c)))) \<noteq> []
          \<or> main (step e c) = Returned (Some ErrTimeout)" by blast
  note ih = Cons.IH [OF r j]
  show ?case
  proof (cases "e = CallerTimeout")
    case True
    with s have "main (step e c) = Returned (Some ErrTimeout)" by blast
    then have "main (exec es (step e c)) = Returned (Some ErrTimeout)" by (rule Returned_exec)
    then show ?thesis by simp
  next
    case False
    with ih show ?thesis by auto
  qed
qed

text \<open>
  C5, as amended. Let \<^verbatim>\<open>Start\<close> be at its \<^verbatim>\<open>select\<close> and the timer have fired. As long as
  the worker has not come to its send on \<^verbatim>\<open>complete\<close> (it has not started, or stands
  anywhere in the loop, also inside a task), the completion case cannot proceed, the only
  value \<^verbatim>\<open>Start\<close> can return is \<^verbatim>\<open>ErrTimeout\<close>, and it returns it with the first step that
  takes the timeout case, no step of the worker needed. That step leaves the worker, the
  trace, the subscription and the interrupt channel as they are, and the worker goes on
  afterwards exactly as it would have without it: it is abandoned, not stopped. But once
  the worker waits in its send while \<^verbatim>\<open>Start\<close> is still at the \<^verbatim>\<open>select\<close>, both cases can
  proceed and \<^verbatim>\<open>Start\<close> returns either what the worker sends or \<^verbatim>\<open>ErrTimeout\<close>, also when
  the timer fired first.
\<close>

theorem timeout_returns_before_completion_is_offered:
  "(main c = AtSelect \<and> buf (ch (timeout (runner c))) \<noteq> [] \<and> not_offered c es \<longrightarrow>
       step Caller c = c
     \<and> main (step CallerTimeout c) = Returned (Some ErrTimeout)
     \<and> (main (exec es c) = Returned e \<longrightarrow> e = Some ErrTimeout)
     \<and> (CallerTimeout \<in> set es \<longrightarrow> main (exec es c) = Returned (Some ErrTimeout)))
   \<and> worker (step CallerTimeout c) = worker c
   \<and> trace (step CallerTimeout c) = trace c
   \<and> handlers (step CallerTimeout c) = handlers c
   \<and> interrupt (runner (step CallerTimeout c)) = interrupt (runner c)
   \<and> (set ws \<subseteq> {Worker, OsInterrupt} \<longrightarrow>
         worker (exec ws (step CallerTimeout c)) = worker (exec ws c)
       \<and> trace (exec ws (step CallerTimeout c)) = trace (exec ws c))
   \<and> (main c = AtSelect \<and> buf (ch (timeout (runner c))) \<noteq> [] \<and> worker c = Send x \<longrightarrow>
         main (step Caller c) = Returned x
       \<and> main (step CallerTimeout c) = Returned (Some ErrTimeout))"
proof -
  have 1: "main c = AtSelect \<and> buf (ch (timeout (runner c))) \<noteq> [] \<and> not_offered c es \<longrightarrow>
       step Caller c = c
     \<and> main (step CallerTimeout c) = Returned (Some ErrTimeout)
     \<and> (main (exec es c) = Returned e \<longrightarrow> e = Some ErrTimeout)
     \<and> (CallerTimeout \<in> set es \<longrightarrow> main (exec es c) = Returned (Some ErrTimeout))"
  proof
    assume a: "main c = AtSelect \<and> buf (ch (timeout (runner c))) \<noteq> [] \<and> not_offered c es"
    then have m: "main c = AtSelect" and b: "buf (ch (timeout (runner c))) \<noteq> []"
      and n: "not_offered c es" by simp_all
    from n have o: "\<not> offering c" by (cases es) simp_all
    have "step Caller c = c"
      using m o by (auto simp: Start_step_def offering_def split: worker_pc.splits)
    moreover have "main (step CallerTimeout c) = Returned (Some ErrTimeout)"
      using m b by (auto simp: Start_timeout_def try_recv_def split: list.splits)
    moreover from only_timeout_before_offer [OF n] m b
    have "(main (exec es c) = Returned e \<longrightarrow> e = Some ErrTimeout)
      \<and> (CallerTimeout \<in> set es \<longrightarrow> main (exec es c) = Returned (Some ErrTimeout))"
      by auto
    ultimately show "step Caller c = c
     \<and> main (step CallerTimeout c) = Returned (Some ErrTimeout)
     \<and> (main (exec es c) = Returned e \<longrightarrow> e = Some ErrTimeout)
     \<and> (CallerTimeout \<in> set es \<longrightarrow> main (exec es c) = Returned (Some ErrTimeout))"
      by blast
  qed
  have 2: "set ws \<subseteq> {Worker, OsInterrupt} \<longrightarrow>
         worker (exec ws (step CallerTimeout c)) = worker (exec ws c)
       \<and> trace (exec ws (step CallerTimeout c)) = trace (exec ws c)"
    using same_worker_exec [OF _ Start_timeout_same [of c], of ws] by (simp add: same_worker_def)
  have 3: "main c = AtSelect \<and> buf (ch (timeout (runner c))) \<noteq> [] \<and> worker c = Send x \<longrightarrow>
         main (step Caller c) = Returned x
       \<and> main (step CallerTimeout c) = Returned (Some ErrTimeout)"
    using select_both_ready [of c x] by blast
  from 1 2 3 Start_timeout_same [of c] show ?thesis by (simp add: same_worker_def)
qed

theorem timeout_returns_before_completion_is_offered_witness:
  "main (Start [Caller, Caller, Worker, Worker, Worker, TimerFires] (Add [''a'', ''b''] (New 5)))
     = AtSelect
   \<and> buf (ch (timeout (runner
        (Start [Caller, Caller, Worker, Worker, Worker, TimerFires] (Add [''a'', ''b''] (New 5))))))
       \<noteq> []
   \<and> not_offered
        (Start [Caller, Caller, Worker, Worker, Worker, TimerFires] (Add [''a'', ''b''] (New 5)))
        [Worker, Worker, OsInterrupt, Caller, CallerTimeout]
   \<and> CallerTimeout \<in> set [Worker, Worker, OsInterrupt, Caller, CallerTimeout]
   \<and> main (exec [Worker, Worker, OsInterrupt, Caller, CallerTimeout]
        (Start [Caller, Caller, Worker, Worker, Worker, TimerFires] (Add [''a'', ''b''] (New 5))))
       = Returned (Some ErrTimeout)
   \<and> set [Worker, Worker, Worker] \<subseteq> {Worker, OsInterrupt}
   \<and> worker (exec [Worker, Worker, Worker] (step CallerTimeout
        (Start [Caller, Caller, Worker, Worker, Worker, TimerFires] (Add [''a'', ''b''] (New 5)))))
       = Running 1 []"
proof -
  let ?c = "Start [Caller, Caller, Worker, Worker, Worker, TimerFires] (Add [''a'', ''b''] (New 5))
              :: string cfg"
  let ?es = "[Worker, Worker, OsInterrupt, Caller, CallerTimeout]"
  have m: "main ?c = AtSelect" by code_simp
  have b: "buf (ch (timeout (runner ?c))) \<noteq> []" by code_simp
  have n: "not_offered ?c ?es" by code_simp
  have t: "CallerTimeout \<in> set ?es" by simp
  have r: "worker (exec [Worker, Worker, Worker] ?c) = Running 1 []" by code_simp
  have s: "set [Worker, Worker, Worker] \<subseteq> {Worker, OsInterrupt}" by simp
  note th = timeout_returns_before_completion_is_offered
    [where c = ?c and es = ?es and e = None and ws = "[Worker, Worker, Worker]" and x = None]
  from th m b n t have 1: "main (exec ?es ?c) = Returned (Some ErrTimeout)" by blast
  from th s r
  have 2: "worker (exec [Worker, Worker, Worker] (step CallerTimeout ?c)) = Running 1 []"
    by presburger
  from m b n t s 1 2 show ?thesis by blast
qed

text \<open>
  The claim as stated does not hold. One task is registered; the timer fires while it
  runs, \<^verbatim>\<open>Start\<close> being at its \<^verbatim>\<open>select\<close>. Before \<^verbatim>\<open>Start\<close> takes a step the task returns and
  the worker comes to its send of nil; the \<^verbatim>\<open>select\<close> then takes the completion case, and
  \<^verbatim>\<open>Start\<close> returns nil although the timer fired before the completion was there.
\<close>

theorem timeout_counterexample:
  "main (Start [Caller, Caller, Worker, Worker, Worker, TimerFires] (Add [''a''] (New 5)))
     = AtSelect
   \<and> worker (Start [Caller, Caller, Worker, Worker, Worker, TimerFires] (Add [''a''] (New 5)))
       = Running 0 []
   \<and> buf (ch (timeout (runner
        (Start [Caller, Caller, Worker, Worker, Worker, TimerFires] (Add [''a''] (New 5))))))
       = [()]
   \<and> main (Start [Caller, Caller, Worker, Worker, Worker, TimerFires, Worker, Worker, Caller]
        (Add [''a''] (New 5))) = Returned None
   \<and> main (Start [Caller, Caller, Worker, Worker, Worker, TimerFires, Worker, Worker, Caller]
        (Add [''a''] (New 5))) \<noteq> Returned (Some ErrTimeout)"
  by code_simp

section \<open>The subscription\<close>

lemma subscription:
  assumes "coherent ts c"
  shows "(Unsubscribe \<in> set (trace c) \<longrightarrow>
            Check True \<in> set (trace c)
            \<and> (worker c = Send (Some ErrInterrupt) \<or> main c = Returned (Some ErrInterrupt)))
    \<and> (main c \<noteq> AtNotify \<longrightarrow> handlers c = (Unsubscribe \<notin> set (trace c)))"
proof (cases "worker c")
  case (Send e)
  with assms show ?thesis
    by (cases e)
      (auto simp: coherent_def shape_def control_def stopped_at_def Unsubscribe_visits
        split: main_pc.splits if_splits)
next
  case Done
  with assms show ?thesis
    by (auto simp: coherent_def shape_def control_def stopped_at_def Unsubscribe_visits
        split: main_pc.splits option.splits if_splits)
qed (use assms in \<open>auto simp: coherent_def shape_def control_def stopped_at_def
        Unsubscribe_visits split: main_pc.splits if_splits\<close>)

lemma Start_step_keeps:
  "trace (Start_step c) = trace c \<and> (handlers c \<longrightarrow> handlers (Start_step c))"
  by (auto simp: Start_step_def signal_Notify_def split: main_pc.splits worker_pc.splits)

text \<open>
  C7, as amended. \<^verbatim>\<open>signal.Stop\<close> is called only by the loop, after a check of it has
  received a signal, and the result of that loop is \<^verbatim>\<open>ErrInterrupt\<close>. No step of \<^verbatim>\<open>Start\<close>
  itself calls it: the step that returns \<^verbatim>\<open>ErrTimeout\<close> leaves the subscription as it is,
  and so does the step that returns what the loop sent. When \<^verbatim>\<open>Start\<close> has returned nil the
  channel is still registered. When \<^verbatim>\<open>Start\<close> has returned \<^verbatim>\<open>ErrTimeout\<close> the channel is
  registered if and only if the loop has not called \<^verbatim>\<open>signal.Stop\<close>, before that return or
  after it; it is registered, in particular, when no check has observed a signal, and so
  when no signal was raised. When
  \<^verbatim>\<open>Start\<close> has returned \<^verbatim>\<open>ErrInterrupt\<close> the channel is not registered any more.
\<close>

theorem unsubscribed_only_by_the_interrupted_loop:
  "(Unsubscribe \<in> set (trace (Start es r)) \<longrightarrow>
      Check True \<in> set (trace (Start es r))
      \<and> (worker (Start es r) = Send (Some ErrInterrupt)
          \<or> main (Start es r) = Returned (Some ErrInterrupt)))
   \<and> (main (Start es r) = Returned None \<longrightarrow>
        handlers (Start es r) \<and> Unsubscribe \<notin> set (trace (Start es r)))
   \<and> (main (Start es r) = Returned (Some ErrTimeout) \<longrightarrow>
        handlers (Start es r) = (Unsubscribe \<notin> set (trace (Start es r))))
   \<and> (main (Start es r) = Returned (Some ErrTimeout) \<and> Check True \<notin> set (trace (Start es r))
        \<longrightarrow> handlers (Start es r))
   \<and> (main (Start es r) = Returned (Some ErrTimeout) \<and> buf (interrupt r) = []
        \<and> OsInterrupt \<notin> set es \<longrightarrow> handlers (Start es r))
   \<and> (main (Start es r) = Returned (Some ErrInterrupt) \<longrightarrow>
        \<not> handlers (Start es r) \<and> Unsubscribe \<in> set (trace (Start es r)))
   \<and> trace (step Caller c) = trace c \<and> (handlers c \<longrightarrow> handlers (step Caller c))
   \<and> trace (step CallerTimeout c) = trace c
   \<and> handlers (step CallerTimeout c) = handlers c"
proof -
  have c: "coherent (tasks r) (Start es r)" by (rule coherent_Start)
  note s = subscription [OF c]
  have "main (Start es r) = Returned None \<longrightarrow>
        handlers (Start es r) \<and> Unsubscribe \<notin> set (trace (Start es r))"
    using c by (auto simp: coherent_def control_def shape_def Unsubscribe_visits)
  moreover have t: "main (Start es r) = Returned (Some ErrTimeout) \<longrightarrow>
        handlers (Start es r) = (Unsubscribe \<notin> set (trace (Start es r)))"
    using s by auto
  moreover have "main (Start es r) = Returned (Some ErrTimeout)
        \<and> Check True \<notin> set (trace (Start es r)) \<longrightarrow> handlers (Start es r)"
    using s t by blast
  moreover have "main (Start es r) = Returned (Some ErrTimeout) \<and> buf (interrupt r) = []
        \<and> OsInterrupt \<notin> set es \<longrightarrow> handlers (Start es r)"
    using s t no_signal_Start [of r es] by (auto simp: no_signal_def)
  moreover have "main (Start es r) = Returned (Some ErrInterrupt) \<longrightarrow>
        \<not> handlers (Start es r) \<and> Unsubscribe \<in> set (trace (Start es r))"
    using c by (auto simp: coherent_def control_def shape_def)
  ultimately show ?thesis
    using s Start_step_keeps [of c] Start_timeout_same [of c] by (simp add: same_worker_def)
qed

theorem unsubscribed_only_by_the_interrupted_loop_witness:
  "main (Start (finish 1) (Add [''a''] (New 5))) = Returned None
   \<and> handlers (Start (finish 1) (Add [''a''] (New 5)))
   \<and> main (Start [Caller, Caller, Worker, TimerFires, CallerTimeout] (Add [''a''] (New 5)))
       = Returned (Some ErrTimeout)
   \<and> Check True \<notin> set (trace
        (Start [Caller, Caller, Worker, TimerFires, CallerTimeout] (Add [''a''] (New 5))))
   \<and> handlers (Start [Caller, Caller, Worker, TimerFires, CallerTimeout] (Add [''a''] (New 5)))
   \<and> Unsubscribe \<in> set (trace (Start (Caller # OsInterrupt # finish 1) (Add [''a''] (New 5))))
   \<and> Check True \<in> set (trace (Start (Caller # OsInterrupt # finish 1) (Add [''a''] (New 5))))
   \<and> main (Start (Caller # OsInterrupt # finish 1) (Add [''a''] (New 5)))
       = Returned (Some ErrInterrupt)
   \<and> \<not> handlers (Start (Caller # OsInterrupt # finish 1) (Add [''a''] (New 5)))"
proof -
  let ?r = "Add [''a''] (New 5) :: string Runner"
  let ?t = "[Caller, Caller, Worker, TimerFires, CallerTimeout]"
  let ?i = "Caller # OsInterrupt # finish 1"
  let ?c = "Start [] ?r"
  have 1: "main (Start (finish 1) ?r) = Returned None" by code_simp
  have 2: "main (Start ?t ?r) = Returned (Some ErrTimeout)" by code_simp
  have 3: "Check True \<notin> set (trace (Start ?t ?r))" by code_simp
  have 4: "Unsubscribe \<in> set (trace (Start ?i ?r))" by code_simp
  have 5: "main (Start ?i ?r) = Returned (Some ErrInterrupt)" by code_simp
  from unsubscribed_only_by_the_interrupted_loop [of "finish 1" ?r ?c] 1
  have a: "handlers (Start (finish 1) ?r)" by blast
  from unsubscribed_only_by_the_interrupted_loop [of ?t ?r ?c] 2 3
  have b: "handlers (Start ?t ?r)" by blast
  from unsubscribed_only_by_the_interrupted_loop [of ?i ?r ?c] 4 5
  have d: "Check True \<in> set (trace (Start ?i ?r))"
    and e: "\<not> handlers (Start ?i ?r)"
    by blast+
  from 1 2 3 4 5 a b d e show ?thesis by blast
qed

text \<open>
  The claim as stated does not hold: \<^verbatim>\<open>Start\<close> can return \<^verbatim>\<open>ErrTimeout\<close> with the channel
  not registered any more. In the first schedule the loop observes a signal and calls
  \<^verbatim>\<open>signal.Stop\<close>, the timer fires before \<^verbatim>\<open>Start\<close> has received what the loop sends, and
  the \<^verbatim>\<open>select\<close> takes the timeout case. In the second \<^verbatim>\<open>Start\<close> returns \<^verbatim>\<open>ErrTimeout\<close> while
  the first of two tasks runs, the channel still registered; a signal is raised afterwards,
  and the abandoned loop observes it at its next check and calls \<^verbatim>\<open>signal.Stop\<close>.
\<close>

theorem timeout_unsubscribed_counterexample:
  "main (Start [Caller, OsInterrupt, Caller, Worker, Worker, Worker, TimerFires, CallerTimeout]
      (Add [''a''] (New 5))) = Returned (Some ErrTimeout)
   \<and> \<not> handlers (Start [Caller, OsInterrupt, Caller, Worker, Worker, Worker, TimerFires,
        CallerTimeout] (Add [''a''] (New 5)))
   \<and> main (Start [Caller, Caller, Worker, Worker, Worker, TimerFires, CallerTimeout]
        (Add [''a'', ''b''] (New 5))) = Returned (Some ErrTimeout)
   \<and> handlers (Start [Caller, Caller, Worker, Worker, Worker, TimerFires, CallerTimeout]
        (Add [''a'', ''b''] (New 5)))
   \<and> main (Start [Caller, Caller, Worker, Worker, Worker, TimerFires, CallerTimeout,
        OsInterrupt, Worker, Worker, Worker] (Add [''a'', ''b''] (New 5)))
       = Returned (Some ErrTimeout)
   \<and> \<not> handlers (Start [Caller, Caller, Worker, Worker, Worker, TimerFires, CallerTimeout,
        OsInterrupt, Worker, Worker, Worker] (Add [''a'', ''b''] (New 5)))"
  by code_simp

section \<open>Observing a signal\<close>

lemma split_unique:
  "a \<notin> set xs \<Longrightarrow> a \<notin> set ys \<Longrightarrow> xs @ a # ys = pre @ a # post \<Longrightarrow> pre = xs \<and> post = ys"
proof (induction xs arbitrary: pre)
  case Nil
  then show ?case by (cases pre) auto
next
  case (Cons x xs)
  then show ?case by (cases pre) auto
qed

lemma stopped_at_split:
  "stopped_at ts tr \<Longrightarrow> \<exists>v. tr = v @ [Check True] \<and> Check True \<notin> set v"
  by (auto simp: stopped_at_def Check_True_visits)

lemma observed_shape:
  assumes "coherent ts c"
  shows "Check True \<notin> set (trace c)
    \<or> (\<exists>v u. trace c = v @ Check True # u \<and> Check True \<notin> set v \<and> (u = [] \<or> u = [Unsubscribe]))"
proof -
  have ended: "\<exists>v u. tr @ [Unsubscribe] = v @ Check True # u \<and> Check True \<notin> set v
      \<and> (u = [] \<or> u = [Unsubscribe])" if "stopped_at ts tr" for tr
  proof -
    from stopped_at_split [OF that] obtain v where "tr = v @ [Check True]" "Check True \<notin> set v"
      by blast
    then have "tr @ [Unsubscribe] = v @ Check True # [Unsubscribe] \<and> Check True \<notin> set v" by simp
    then show ?thesis by blast
  qed
  show ?thesis
  proof (cases "worker c")
    case Recvd
    with assms have "stopped_at ts (trace c)" by (simp add: coherent_def shape_def)
    from stopped_at_split [OF this] obtain v where "trace c = v @ Check True # []"
      "Check True \<notin> set v" by auto
    then show ?thesis by blast
  next
    case (Send e)
    show ?thesis
    proof (cases e)
      case None
      with Send assms show ?thesis by (simp add: coherent_def shape_def Check_True_visits)
    next
      case (Some x)
      with Send assms obtain tr where "trace c = tr @ [Unsubscribe]" "stopped_at ts tr"
        by (auto simp: coherent_def shape_def)
      with ended show ?thesis by auto
    qed
  next
    case Done
    with assms obtain e where m: "main c = Returned e"
      by (auto simp: coherent_def shape_def split: main_pc.splits)
    show ?thesis
    proof (cases e)
      case None
      with Done m assms show ?thesis by (simp add: coherent_def shape_def Check_True_visits)
    next
      case (Some x)
      with Done m assms obtain tr where "trace c = tr @ [Unsubscribe]" "stopped_at ts tr"
        by (auto simp: coherent_def shape_def)
      with ended show ?thesis by auto
    qed
  qed (use assms in \<open>auto simp: coherent_def shape_def Check_True_visits\<close>)
qed

lemma observed_once: "coherent ts c \<Longrightarrow> count_list (trace c) (Check True) \<le> 1"
  using observed_shape [of ts c] by (auto simp: count_list_0_iff)

lemma observed_last:
  assumes "coherent ts c" and "trace c = pre @ Check True # post"
  shows "Check True \<notin> set pre \<and> (post = [] \<or> post = [Unsubscribe])"
proof -
  from observed_shape [OF assms(1)] assms(2)
  obtain v u where t: "trace c = v @ Check True # u" and v: "Check True \<notin> set v"
    and u: "u = [] \<or> u = [Unsubscribe]"
    by auto
  from u have "Check True \<notin> set u" by auto
  moreover have "v @ Check True # u = pre @ Check True # post" using t assms(2) by simp
  ultimately have "pre = v \<and> post = u" using v by (rule split_unique [rotated])
  with v u show ?thesis by simp
qed

lemma unsubscribed_drops:
  assumes "coherent ts c" and "Unsubscribe \<in> set (trace c)"
  shows "os_interrupt c = c"
proof -
  from subscription [OF assms(1)] assms have "\<not> handlers c"
    by (auto simp: coherent_def control_def)
  then show ?thesis by (simp add: os_interrupt_def)
qed

lemma dropped_signals: "\<not> handlers c \<Longrightarrow> exec (replicate n OsInterrupt) c = c"
  by (induction n) (simp_all add: os_interrupt_def)

lemma receive_consumes:
  assumes "worker c = Loop i (t # rest)" and "buf (interrupt (runner c)) = s # ss"
  shows "worker (run_step c) = Recvd \<and> buf (interrupt (runner (run_step c))) = ss
    \<and> \<not> handlers (run_step (run_step c))
    \<and> buf (interrupt (runner (run_step (run_step c)))) = ss"
  using assms
  by (simp add: run_step_def gotInterrupt_select_def try_recv_def signal_Stop_def)

lemma window_signal_stays:
  assumes "worker c = Loop i (t # rest)" and "buf (interrupt (runner c)) = [s]"
    and "handlers c" and "cap (interrupt (runner c)) = 1"
  shows "\<not> handlers (exec [Worker, OsInterrupt, Worker] c)
    \<and> buf (interrupt (runner (exec [Worker, OsInterrupt, Worker] c))) = [Interrupt]"
  using assms
  by (simp add: run_step_def gotInterrupt_select_def try_recv_def signal_Stop_def
      os_interrupt_def relay_def try_send_def)

text \<open>
  C8, as amended. In every schedule the trace holds at most one check that observed a
  signal; no check precedes it that observed one, and nothing follows it but the call of
  \<^verbatim>\<open>signal.Stop\<close>: \<^verbatim>\<open>run\<close> returns without a further check, so one \<^verbatim>\<open>Start\<close> is interrupted
  at most once. The check that observes the signal takes it out of the channel, and once
  \<^verbatim>\<open>signal.Stop\<close> was called a raised signal changes nothing. Whether a check made later
  would find the channel empty depends on the time between the receive and the call of
  \<^verbatim>\<open>signal.Stop\<close>: when no signal is relayed in between, \<^verbatim>\<open>gotInterrupt\<close> returns false
  afterwards, whatever is raised then; when a signal is relayed in between, it stays in
  the buffer and \<^verbatim>\<open>gotInterrupt\<close> returns true afterwards.
\<close>

theorem interrupt_consumed_on_observation:
  "(trace (Start es r) = pre @ Check True # post \<longrightarrow>
      Check True \<notin> set pre \<and> (post = [] \<or> post = [Unsubscribe]))
   \<and> count_list (trace (Start es r)) (Check True) \<le> 1
   \<and> (Unsubscribe \<in> set (trace (Start es r)) \<longrightarrow> step OsInterrupt (Start es r) = Start es r)
   \<and> (worker c = Loop i (t # rest) \<and> buf (interrupt (runner c)) = [s] \<longrightarrow>
        worker (step Worker c) = Recvd
        \<and> buf (interrupt (runner (step Worker c))) = []
        \<and> \<not> handlers (step Worker (step Worker c))
        \<and> \<not> fst (gotInterrupt (exec (Worker # Worker # replicate n OsInterrupt) c)))
   \<and> (worker c = Loop i (t # rest) \<and> buf (interrupt (runner c)) = [s]
        \<and> handlers c \<and> cap (interrupt (runner c)) = 1 \<longrightarrow>
        buf (interrupt (runner (exec (Worker # OsInterrupt # Worker # replicate n OsInterrupt) c)))
          = [Interrupt]
        \<and> fst (gotInterrupt (exec (Worker # OsInterrupt # Worker # replicate n OsInterrupt) c)))
   \<and> (fst (gotInterrupt c) \<and> length (buf (interrupt (runner c))) \<le> 1 \<longrightarrow>
        \<not> fst (gotInterrupt (exec (replicate n OsInterrupt) (snd (gotInterrupt c)))))"
proof -
  have c: "coherent (tasks r) (Start es r)" by (rule coherent_Start)
  have 1: "worker c = Loop i (t # rest) \<and> buf (interrupt (runner c)) = [s] \<longrightarrow>
        worker (step Worker c) = Recvd
        \<and> buf (interrupt (runner (step Worker c))) = []
        \<and> \<not> handlers (step Worker (step Worker c))
        \<and> \<not> fst (gotInterrupt (exec (Worker # Worker # replicate n OsInterrupt) c))"
  proof
    assume a: "worker c = Loop i (t # rest) \<and> buf (interrupt (runner c)) = [s]"
    then have w: "worker c = Loop i (t # rest)" and b: "buf (interrupt (runner c)) = [s]"
      by simp_all
    note rc = receive_consumes [OF w b]
    from rc have "exec (Worker # Worker # replicate n OsInterrupt) c = run_step (run_step c)"
      by (simp add: dropped_signals)
    with rc show "worker (step Worker c) = Recvd
        \<and> buf (interrupt (runner (step Worker c))) = []
        \<and> \<not> handlers (step Worker (step Worker c))
        \<and> \<not> fst (gotInterrupt (exec (Worker # Worker # replicate n OsInterrupt) c))"
      by (simp add: gotInterrupt_empty)
  qed
  have 2: "worker c = Loop i (t # rest) \<and> buf (interrupt (runner c)) = [s]
        \<and> handlers c \<and> cap (interrupt (runner c)) = 1 \<longrightarrow>
        buf (interrupt (runner (exec (Worker # OsInterrupt # Worker # replicate n OsInterrupt) c)))
          = [Interrupt]
        \<and> fst (gotInterrupt (exec (Worker # OsInterrupt # Worker # replicate n OsInterrupt) c))"
  proof
    assume a: "worker c = Loop i (t # rest) \<and> buf (interrupt (runner c)) = [s]
        \<and> handlers c \<and> cap (interrupt (runner c)) = 1"
    let ?c3 = "exec [Worker, OsInterrupt, Worker] c"
    from a window_signal_stays [of c i t rest s]
    have h: "\<not> handlers ?c3" and b: "buf (interrupt (runner ?c3)) = [Interrupt]"
      by simp_all
    have "exec (Worker # OsInterrupt # Worker # replicate n OsInterrupt) c
        = exec (replicate n OsInterrupt) ?c3" by simp
    also have "\<dots> = ?c3" using h by (rule dropped_signals)
    finally have e: "exec (Worker # OsInterrupt # Worker # replicate n OsInterrupt) c = ?c3" .
    show "buf (interrupt (runner (exec (Worker # OsInterrupt # Worker # replicate n OsInterrupt) c)))
          = [Interrupt]
        \<and> fst (gotInterrupt (exec (Worker # OsInterrupt # Worker # replicate n OsInterrupt) c))"
      unfolding e using b by (simp add: gotInterrupt_pending)
  qed
  have 3: "fst (gotInterrupt c) \<and> length (buf (interrupt (runner c))) \<le> 1 \<longrightarrow>
        \<not> fst (gotInterrupt (exec (replicate n OsInterrupt) (snd (gotInterrupt c))))"
  proof
    assume a: "fst (gotInterrupt c) \<and> length (buf (interrupt (runner c))) \<le> 1"
    show "\<not> fst (gotInterrupt (exec (replicate n OsInterrupt) (snd (gotInterrupt c))))"
    proof (cases "buf (interrupt (runner c))")
      case Nil
      with a show ?thesis by (simp add: gotInterrupt_empty)
    next
      case (Cons s ss)
      with a have ss: "ss = []" by simp
      let ?c' = "snd (gotInterrupt c)"
      from Cons ss have h: "\<not> handlers ?c'" and b: "buf (interrupt (runner ?c')) = []"
        by (simp_all add: gotInterrupt_pending)
      from dropped_signals [OF h, of n] b show ?thesis by (simp add: gotInterrupt_empty)
    qed
  qed
  from 1 2 3 show ?thesis
    using observed_last [OF c] observed_once [OF c] unsubscribed_drops [OF c] by simp
qed

theorem interrupt_consumed_on_observation_witness:
  "trace (Start (Caller # OsInterrupt # finish 2) (Add [''a'', ''b''] (New 5)))
     = [] @ Check True # [Unsubscribe]
   \<and> Unsubscribe \<in> set (trace (Start (Caller # OsInterrupt # finish 2) (Add [''a'', ''b''] (New 5))))
   \<and> step OsInterrupt (Start (Caller # OsInterrupt # finish 2) (Add [''a'', ''b''] (New 5)))
       = Start (Caller # OsInterrupt # finish 2) (Add [''a'', ''b''] (New 5))
   \<and> worker (Start [Caller, Caller, Worker, OsInterrupt] (Add [''a'', ''b''] (New 5)))
       = Loop 0 (''a'' # [''b''])
   \<and> buf (interrupt (runner (Start [Caller, Caller, Worker, OsInterrupt] (Add [''a'', ''b''] (New 5)))))
       = [Interrupt]
   \<and> handlers (Start [Caller, Caller, Worker, OsInterrupt] (Add [''a'', ''b''] (New 5)))
   \<and> cap (interrupt (runner (Start [Caller, Caller, Worker, OsInterrupt] (Add [''a'', ''b''] (New 5)))))
       = 1
   \<and> \<not> fst (gotInterrupt (exec (Worker # Worker # replicate 3 OsInterrupt)
        (Start [Caller, Caller, Worker, OsInterrupt] (Add [''a'', ''b''] (New 5)))))
   \<and> fst (gotInterrupt (exec (Worker # OsInterrupt # Worker # replicate 3 OsInterrupt)
        (Start [Caller, Caller, Worker, OsInterrupt] (Add [''a'', ''b''] (New 5)))))"
proof -
  let ?r = "Add [''a'', ''b''] (New 5) :: string Runner"
  let ?f = "Caller # OsInterrupt # finish 2"
  let ?c = "Start [Caller, Caller, Worker, OsInterrupt] ?r"
  have 1: "trace (Start ?f ?r) = [] @ Check True # [Unsubscribe]" by code_simp
  have 2: "Unsubscribe \<in> set (trace (Start ?f ?r))" by code_simp
  have 3: "worker ?c = Loop 0 (''a'' # [''b''])" by code_simp
  have 4: "buf (interrupt (runner ?c)) = [Interrupt]" by code_simp
  have 5: "handlers ?c" by code_simp
  have 6: "cap (interrupt (runner ?c)) = 1" by code_simp
  note th = interrupt_consumed_on_observation
    [of ?f ?r "[]" "[Unsubscribe]" ?c 0 "''a''" "[''b'']" Interrupt 3]
  from th 2 have 7: "step OsInterrupt (Start ?f ?r) = Start ?f ?r" by blast
  from th 3 4
  have 8: "\<not> fst (gotInterrupt (exec (Worker # Worker # replicate 3 OsInterrupt) ?c))" by blast
  from th 3 4 5 6
  have 9: "fst (gotInterrupt (exec (Worker # OsInterrupt # Worker # replicate 3 OsInterrupt) ?c))"
    by blast
  from 1 2 3 4 5 6 7 8 9 show ?thesis by blast
qed

text \<open>
  The claim as stated does not hold. A signal is raised and the first check receives it;
  a second signal is raised before \<^verbatim>\<open>signal.Stop\<close> is called and is relayed to the channel,
  which is still registered and empty again. After the check has observed the signal and
  \<^verbatim>\<open>signal.Stop\<close> was called, the channel holds a signal, and \<^verbatim>\<open>gotInterrupt\<close> called then
  returns true.
\<close>

theorem later_check_counterexample:
  "trace (Start [Caller, Caller, Worker, OsInterrupt, Worker, OsInterrupt, Worker]
      (Add [''a'', ''b''] (New 5))) = [Check True, Unsubscribe]
   \<and> \<not> handlers (Start [Caller, Caller, Worker, OsInterrupt, Worker, OsInterrupt, Worker]
        (Add [''a'', ''b''] (New 5)))
   \<and> buf (interrupt (runner (Start [Caller, Caller, Worker, OsInterrupt, Worker, OsInterrupt, Worker]
        (Add [''a'', ''b''] (New 5))))) = [Interrupt]
   \<and> fst (gotInterrupt (Start [Caller, Caller, Worker, OsInterrupt, Worker, OsInterrupt, Worker]
        (Add [''a'', ''b''] (New 5))))"
  by code_simp

section \<open>After a timeout\<close>

lemma blocked_step: "main c = Returned y \<Longrightarrow> worker c = Send x \<Longrightarrow> worker (step e c) = Send x"
  by (cases e)
    (simp_all add: os_interrupt_def timer_fires_def Start_step_def Start_timeout_def run_step_def)

lemma blocked_exec: "main c = Returned y \<Longrightarrow> worker c = Send x \<Longrightarrow> worker (exec es c) = Send x"
proof (induction es arbitrary: c)
  case Nil
  then show ?case by simp
next
  case (Cons e es)
  from Cons.IH [OF Returned_step [OF Cons.prems(1)] blocked_step [OF Cons.prems]]
  show ?case by simp
qed

lemma sends_after:
  assumes "coherent ts c" and "worker c = Send x"
  shows "x = None \<and> invocations (trace c) = indexed ts
    \<or> x = Some ErrInterrupt \<and> Check True \<in> set (trace c)"
proof (cases x)
  case None
  with assms have "trace c = visits 0 ts" by (simp add: coherent_def shape_def)
  with None show ?thesis by (simp add: invocations_visits_0)
next
  case (Some y)
  with assms show ?thesis by (auto simp: coherent_def shape_def stopped_at_def)
qed

text \<open>
  C9, as amended. After \<^verbatim>\<open>Start\<close> has returned \<^verbatim>\<open>ErrTimeout\<close> the worker never ends. It is
  not stopped when its current task returns but goes on through the loop: when it comes to
  its send, either it sends nil and every registered task has been called, each with its
  index, in order, or it sends \<^verbatim>\<open>ErrInterrupt\<close> and a check of it has observed a signal; and
  when no signal is raised it calls every registered task. Once it waits in its send on
  \<^verbatim>\<open>complete\<close>, a channel without buffer that \<^verbatim>\<open>Start\<close> no longer receives from, it waits
  there whatever happens. Given steps enough it does reach that send.
\<close>

theorem orphaned_worker_blocks_in_send:
  assumes "main (Start es r) = Returned (Some ErrTimeout)"
  shows "worker (Start (es @ es') r) \<noteq> Done
    \<and> (worker (Start (es @ es') r) = Send x \<longrightarrow> worker (Start (es @ es' @ es'') r) = Send x)
    \<and> (worker (Start (es @ es') r) = Send x \<longrightarrow>
          x = None \<and> invocations (trace (Start (es @ es') r)) = indexed (tasks r)
        \<or> x = Some ErrInterrupt \<and> Check True \<in> set (trace (Start (es @ es') r)))
    \<and> (\<exists>y. worker (Start (es @ es' @ replicate (3 * length (tasks r) + 2) Worker) r) = Send y)
    \<and> (buf (interrupt r) = [] \<and> OsInterrupt \<notin> set (es @ es') \<longrightarrow>
          worker (Start (es @ es' @ replicate (3 * length (tasks r) + 2) Worker) r) = Send None
        \<and> invocations (trace (Start (es @ es' @ replicate (3 * length (tasks r) + 2) Worker) r))
            = indexed (tasks r))"
proof -
  let ?c = "Start (es @ es') r"
  let ?w = "replicate (3 * length (tasks r) + 2) Worker"
  let ?d = "Start (es @ es' @ ?w) r"
  have c: "coherent (tasks r) ?c" by (rule coherent_Start)
  have d: "coherent (tasks r) ?d" by (rule coherent_Start)
  have m: "main ?c = Returned (Some ErrTimeout)"
    using Returned_exec [OF assms [unfolded Start_def], of es'] by (simp add: Start_def exec_append)
  with c have w: "worker ?c \<noteq> NotSpawned" "worker ?c \<noteq> Done"
    by (auto simp: coherent_def control_def)
  have 1: "worker ?c = Send x \<longrightarrow> worker (Start (es @ es' @ es'') r) = Send x"
    using blocked_exec [OF m, of x es''] by (simp add: Start_def exec_append)
  have 2: "worker ?c = Send x \<longrightarrow>
          x = None \<and> invocations (trace ?c) = indexed (tasks r)
        \<or> x = Some ErrInterrupt \<and> Check True \<in> set (trace ?c)"
    using sends_after [OF c, of x] by blast
  have 3: "\<exists>y. worker ?d = Send y"
    using run_ends [OF w coherent_fuel [OF c]] by (simp add: Start_def exec_append)
  have 4: "buf (interrupt r) = [] \<and> OsInterrupt \<notin> set (es @ es') \<longrightarrow>
          worker ?d = Send None \<and> invocations (trace ?d) = indexed (tasks r)"
  proof
    assume a: "buf (interrupt r) = [] \<and> OsInterrupt \<notin> set (es @ es')"
    then have "OsInterrupt \<notin> set (es @ es' @ ?w)" by auto
    with a have "no_signal ?d" by (simp add: no_signal_Start)
    then have n: "Check True \<notin> set (trace ?d)" by (simp add: no_signal_def)
    from 3 obtain y where y: "worker ?d = Send y" by blast
    from sends_after [OF d y] n y
    show "worker ?d = Send None \<and> invocations (trace ?d) = indexed (tasks r)" by auto
  qed
  from w 1 2 3 4 show ?thesis by blast
qed

theorem orphaned_worker_blocks_in_send_witness:
  "main (Start [Caller, Caller, Worker, Worker, Worker, TimerFires, CallerTimeout]
      (Add [''a'', ''b''] (New 5))) = Returned (Some ErrTimeout)
   \<and> invocations (trace (Start [Caller, Caller, Worker, Worker, Worker, TimerFires, CallerTimeout]
        (Add [''a'', ''b''] (New 5)))) = [(''a'', 0)]
   \<and> buf (interrupt (Add [''a'', ''b''] (New 5))) = []
   \<and> OsInterrupt \<notin> set ([Caller, Caller, Worker, Worker, Worker, TimerFires, CallerTimeout] @ [])
   \<and> worker (Start ([Caller, Caller, Worker, Worker, Worker, TimerFires, CallerTimeout] @ []
        @ replicate (3 * length (tasks (Add [''a'', ''b''] (New 5))) + 2) Worker)
        (Add [''a'', ''b''] (New 5))) = Send None
   \<and> invocations (trace (Start ([Caller, Caller, Worker, Worker, Worker, TimerFires, CallerTimeout]
        @ [] @ replicate (3 * length (tasks (Add [''a'', ''b''] (New 5))) + 2) Worker)
        (Add [''a'', ''b''] (New 5)))) = [(''a'', 0), (''b'', 1)]
   \<and> worker (Start ([Caller, Caller, Worker, Worker, Worker, TimerFires, CallerTimeout]
        @ replicate 5 Worker) (Add [''a'', ''b''] (New 5))) = Send None
   \<and> worker (Start ([Caller, Caller, Worker, Worker, Worker, TimerFires, CallerTimeout]
        @ replicate 5 Worker @ [Caller, Worker, CallerTimeout]) (Add [''a'', ''b''] (New 5)))
       = Send None"
proof -
  let ?r = "Add [''a'', ''b''] (New 5) :: string Runner"
  let ?es = "[Caller, Caller, Worker, Worker, Worker, TimerFires, CallerTimeout]"
  let ?w = "replicate (3 * length (tasks ?r) + 2) Worker"
  have m: "main (Start ?es ?r) = Returned (Some ErrTimeout)" by code_simp
  have i: "invocations (trace (Start ?es ?r)) = [(''a'', 0)]" by code_simp
  have b: "buf (interrupt ?r) = []" by code_simp
  have o: "OsInterrupt \<notin> set (?es @ [])" by simp
  have t: "indexed (tasks ?r) = [(''a'', 0), (''b'', 1)]" by code_simp
  have w: "worker (Start (?es @ replicate 5 Worker) ?r) = Send None" by code_simp
  from orphaned_worker_blocks_in_send [OF m, of "[]" None "[]"] b o
  have 1: "worker (Start (?es @ [] @ ?w) ?r) = Send None"
    and "invocations (trace (Start (?es @ [] @ ?w) ?r)) = indexed (tasks ?r)"
    by blast+
  with t have 2: "invocations (trace (Start (?es @ [] @ ?w) ?r)) = [(''a'', 0), (''b'', 1)]"
    by simp
  from orphaned_worker_blocks_in_send
    [OF m, of "replicate 5 Worker" None "[Caller, Worker, CallerTimeout]"] w
  have 3: "worker (Start (?es @ replicate 5 Worker @ [Caller, Worker, CallerTimeout]) ?r) = Send None"
    by blast
  from m i b o 1 2 w 3 show ?thesis by blast
qed

text \<open>
  The claim as stated does not hold. Two tasks are registered; \<^verbatim>\<open>Start\<close> returns
  \<^verbatim>\<open>ErrTimeout\<close> while the first runs. The worker then does not end when that task returns:
  it calls the second task too, reaches the end of the loop and waits in its send of nil,
  and no event of any kind takes it out of that send.
\<close>

theorem orphaned_worker_counterexample:
  "main (Start [Caller, Caller, Worker, Worker, Worker, TimerFires, CallerTimeout]
      (Add [''a'', ''b''] (New 5))) = Returned (Some ErrTimeout)
   \<and> worker (Start [Caller, Caller, Worker, Worker, Worker, TimerFires, CallerTimeout]
      (Add [''a'', ''b''] (New 5))) = Running 0 [''b'']
   \<and> worker (Start [Caller, Caller, Worker, Worker, Worker, TimerFires, CallerTimeout,
        Worker, Worker, Worker, Worker, Worker] (Add [''a'', ''b''] (New 5))) = Send None
   \<and> invocations (trace (Start [Caller, Caller, Worker, Worker, Worker, TimerFires, CallerTimeout,
        Worker, Worker, Worker, Worker, Worker] (Add [''a'', ''b''] (New 5))))
       = [(''a'', 0), (''b'', 1)]
   \<and> worker (Start [Caller, Caller, Worker, Worker, Worker, TimerFires, CallerTimeout,
        Worker, Worker, Worker, Worker, Worker,
        Worker, Caller, CallerTimeout, OsInterrupt, TimerFires, Worker, Caller]
        (Add [''a'', ''b''] (New 5))) = Send None
   \<and> worker (Start [Caller, Caller, Worker, Worker, Worker, TimerFires, CallerTimeout,
        Worker, Worker, Worker, Worker, Worker,
        Worker, Caller, CallerTimeout, OsInterrupt, TimerFires, Worker, Caller]
        (Add [''a'', ''b''] (New 5))) \<noteq> Done"
  by code_simp

section \<open>The capacity of the interrupt channel\<close>

lemma os_interrupt_twice:
  "cap (interrupt (runner c)) = 1 \<Longrightarrow> os_interrupt (os_interrupt c) = os_interrupt c"
  by (simp add: os_interrupt_def relay_def try_send_def)

lemma signals_coalesce:
  "cap (interrupt (runner c)) = 1 \<Longrightarrow> exec (replicate (Suc n) OsInterrupt) c = os_interrupt c"
proof (induction n arbitrary: c)
  case 0
  show ?case by simp
next
  case (Suc n)
  have "cap (interrupt (runner (os_interrupt c))) = 1"
    using Suc.prems cap_step [of OsInterrupt c] by simp
  from Suc.IH [OF this] os_interrupt_twice [OF Suc.prems] show ?case by simp
qed

lemma within_cap_step:
  "length (buf (interrupt (runner c))) \<le> cap (interrupt (runner c)) \<Longrightarrow>
     length (buf (interrupt (runner (step e c)))) \<le> cap (interrupt (runner (step e c)))"
  by (cases e)
    (auto simp: os_interrupt_def relay_def try_send_def timer_fires_def Start_step_def
      Start_timeout_def run_step_def gotInterrupt_select_def signal_Stop_def signal_Notify_def
      try_recv_def
      split: main_pc.splits worker_pc.splits option.splits list.splits)

lemma within_cap_exec:
  "length (buf (interrupt (runner c))) \<le> cap (interrupt (runner c)) \<Longrightarrow>
     length (buf (interrupt (runner (exec es c)))) \<le> cap (interrupt (runner (exec es c)))"
  by (induction es arbitrary: c) (simp_all add: within_cap_step)

text \<open>
  C10. \<^verbatim>\<open>New\<close> makes the interrupt channel with capacity 1, and no step changes that. So
  in every configuration a schedule leads to the channel holds at most one signal; any
  number of signals raised in a row, at least one, leave the configuration that a single
  one leaves (the others are dropped); and the trace holds at most one check that observed
  a signal.
\<close>

theorem interrupt_channel_buffers_one_signal:
  "cap (interrupt (Add ts (New d))) = 1
   \<and> cap (interrupt (runner (Start es (Add ts (New d))))) = 1
   \<and> length (buf (interrupt (runner (Start es (Add ts (New d)))))) \<le> 1
   \<and> exec (replicate (Suc n) OsInterrupt) (Start es (Add ts (New d)))
       = exec [OsInterrupt] (Start es (Add ts (New d)))
   \<and> count_list (trace (Start es (Add ts (New d)))) (Check True) \<le> 1"
proof -
  let ?c = "Start es (Add ts (New d))"
  have "length (buf (interrupt (runner ?c))) \<le> cap (interrupt (runner ?c))"
    unfolding Start_def
    by (rule within_cap_exec) (simp add: Start_call_def Add_def New_def make_chan_def)
  then have 1: "length (buf (interrupt (runner ?c))) \<le> 1" by (simp add: cap_Start_New)
  have 2: "cap (interrupt (Add ts (New d))) = 1" by (simp add: Add_def New_def make_chan_def)
  have 3: "exec (replicate (Suc n) OsInterrupt) ?c = exec [OsInterrupt] ?c"
    using signals_coalesce [OF cap_Start_New, of n es ts d] by simp
  have 4: "count_list (trace ?c) (Check True) \<le> 1"
    using coherent_Start_New by (rule observed_once)
  from 1 2 3 4 cap_Start_New [of es ts d] show ?thesis by blast
qed

theorem interrupt_channel_buffers_one_signal_witness:
  "buf (interrupt (runner (Start [Caller, OsInterrupt, OsInterrupt, OsInterrupt] (Add [''a''] (New 5)))))
     = [Interrupt]
   \<and> exec (replicate (Suc 2) OsInterrupt) (Start [Caller] (Add [''a''] (New 5)))
       = exec [OsInterrupt] (Start [Caller] (Add [''a''] (New 5)))
   \<and> count_list (trace (Start (Caller # OsInterrupt # OsInterrupt # finish 1) (Add [''a''] (New 5))))
        (Check True) = 1"
proof -
  let ?r = "Add [''a''] (New 5) :: string Runner"
  have 1: "buf (interrupt (runner (Start [Caller, OsInterrupt, OsInterrupt, OsInterrupt] ?r)))
     = [Interrupt]" by code_simp
  have 2: "count_list (trace (Start (Caller # OsInterrupt # OsInterrupt # finish 1) ?r))
        (Check True) = 1" by code_simp
  from interrupt_channel_buffers_one_signal [of "[''a'']" 5 "[Caller]" 2]
  have "exec (replicate (Suc 2) OsInterrupt) (Start [Caller] ?r)
       = exec [OsInterrupt] (Start [Caller] ?r)" by blast
  with 1 2 show ?thesis by blast
qed

section \<open>Registration\<close>

lemma Add_Add: "Add ys (Add xs r) = Add (xs @ ys) r"
  by (simp add: Add_def)

lemma Add_Nil: "Add [] r = r"
  by (simp add: Add_def)

lemma fold_Add: "fold Add tss r = Add (concat tss) r"
  by (induction tss arbitrary: r) (simp_all add: Add_Nil Add_Add)

text \<open>
  C6. Registration is a homomorphism on sequences: any number of \<^verbatim>\<open>Add\<close> calls leaves the
  runner that one \<^verbatim>\<open>Add\<close> call with the concatenation of their arguments leaves, so the
  task order is the same and every schedule leads \<^verbatim>\<open>Start\<close> to the same configuration
  (the same result and the same trace); \<^verbatim>\<open>Add\<close> with no argument changes nothing.
\<close>

theorem Add_homomorphism:
  "fold Add tss r = Add (concat tss) r
   \<and> tasks (fold Add tss r) = tasks r @ concat tss
   \<and> Start es (fold Add tss r) = Start es (Add (concat tss) r)
   \<and> Add ys (Add xs r) = Add (xs @ ys) r
   \<and> Add [] r = r"
  by (simp add: fold_Add Add_Add Add_Nil) (simp add: Add_def)

theorem Add_homomorphism_witness:
  "tasks (fold Add [[''a'', ''b''], [], [''c'']] (New 5)) = [''a'', ''b'', ''c'']
   \<and> main (Start [Caller, Caller, Worker] (fold Add [[''a''], [''b'']] (New 5)))
       = main (Start [Caller, Caller, Worker] (Add [''a'', ''b''] (New 5)))"
proof -
  have "tasks (fold Add [[''a'', ''b''], [], [''c'']] (New 5))
        = tasks (New 5) @ concat [[''a'', ''b''], [], [''c'']]"
    using Add_homomorphism [of "[[''a'', ''b''], [], [''c'']]" "New 5"] by blast
  moreover have "Start [Caller, Caller, Worker] (fold Add [[''a''], [''b'']] (New 5))
        = Start [Caller, Caller, Worker] (Add (concat [[''a''], [''b'']]) (New 5))"
    using Add_homomorphism [of "[[''a''], [''b'']]" "New 5" "[Caller, Caller, Worker]"] by blast
  ultimately show ?thesis by (simp add: New_def)
qed

end
